theory Spec2Isabelle
  imports Complex_Main "HOL-Library.AList" "HOL-Library.Multiset"
begin

section \<open>The order model (models/order.go)\<close>

text \<open>
  Prices are Go \<open>float64\<close> values that the book only compares (\<open>>=\<close>) and uses as
  map keys; they are modelled as reals (NaN keys are outside the model).
  \<open>Size\<close> and \<open>OrderType\<close> are Go \<open>int\<close>; the only arithmetic on them is
  \<open>Size -= vol\<close> with \<open>0 < vol \<le> Size\<close>, which cannot overflow, so they are
  unbounded integers here. The id counter is incremented without bound and therefore
  carries the wrap-around of a 64-bit \<open>int\<close> explicitly (\<open>goInt\<close>).
  \<open>Timestamp\<close> is an instant of the monotonic clock.
  The field \<open>Id\<close> of the source is \<open>Id'\<close> here.
\<close>

type_synonym price = real

record Order =
  Price :: price
  Id' :: int
  Ticker :: string
  Size :: int
  OrderType :: int
  Side :: string
  Timestamp :: nat
  GTC :: bool
  FOK :: bool

definition GetType :: "string \<Rightarrow> int" where
  "GetType orderType =
     (if orderType = ''market'' then 1
      else if orderType = ''limit'' then 2
      else if orderType = ''gtc'' then 3
      else if orderType = ''fok'' then 4
      else 0)"

section \<open>The order book (models/orderBook.go)\<close>

text \<open>
  A side of the book is a Go map from price to a slice of orders: an association list
  with one entry per key. \<open>level\<close> reads a key the way Go does: a missing key gives
  the nil slice. The stop channel is never sent on, so its state is open or closed.
  The mutex is not modelled: every operation runs to completion under it.
\<close>

type_synonym side = "(price \<times> Order list) list"

datatype chan = Open | Closed

datatype panic = IndexOutOfRange | SliceBoundsOutOfRange | CloseOfClosedChannel

record OrderBook =
  Bids :: side
  Asks :: side
  nextOrderID :: int
  stopChan :: chan

definition level :: "side \<Rightarrow> price \<Rightarrow> Order list" where
  "level m p = (case map_of m p of None \<Rightarrow> [] | Some xs \<Rightarrow> xs)"

definition goInt :: "int \<Rightarrow> int" where
  "goInt n = (n + 2 ^ 63) mod 2 ^ 64 - 2 ^ 63"

definition NewOrderBook :: OrderBook where
  "NewOrderBook = \<lparr>Bids = [], Asks = [], nextOrderID = 0, stopChan = Open\<rparr>"

subsection \<open>AddOrder\<close>

text \<open>
  \<open>now\<close> is the value of \<open>time.Now()\<close>. \<open>sortSlice\<close> stands for the library call
  \<open>sort.Slice(level, by Timestamp.Before)\<close>, which is not stable: the model takes the
  rearrangement as a parameter.
\<close>

definition AddOrder ::
  "(Order list \<Rightarrow> Order list) \<Rightarrow> nat \<Rightarrow> Order \<Rightarrow> OrderBook \<Rightarrow> OrderBook" where
  "AddOrder sortSlice now order0 ob =
     (let order1 = order0\<lparr>Id' := nextOrderID ob, Timestamp := now\<rparr>;
          ob1 = ob\<lparr>nextOrderID := goInt (nextOrderID ob + 1)\<rparr>;
          order2 = (if OrderType order1 = 3 then order1\<lparr>GTC := True\<rparr>
                    else if OrderType order1 = 4 then order1\<lparr>FOK := True\<rparr>
                    else order1)
      in if Side order2 = ''buy'' then
           ob1\<lparr>Bids := AList.update (Price order2)
                    (sortSlice (level (Bids ob1) (Price order2) @ [order2])) (Bids ob1)\<rparr>
         else if Side order2 = ''sell'' then
           ob1\<lparr>Asks := AList.update (Price order2)
                    (sortSlice (level (Asks ob1) (Price order2) @ [order2])) (Asks ob1)\<rparr>
         else ob1)"

text \<open>The order as \<open>AddOrder\<close> stores it: id, timestamp and the flag of its type.\<close>

definition stamped :: "int \<Rightarrow> nat \<Rightarrow> Order \<Rightarrow> Order" where
  "stamped n now order0 =
     order0\<lparr>Id' := n, Timestamp := now,
            GTC := GTC order0 \<or> OrderType order0 = 3,
            FOK := FOK order0 \<or> (OrderType order0 \<noteq> 3 \<and> OrderType order0 = 4)\<rparr>"

text \<open>
  The order literal that the callers build (\<open>TestOrderBook\<close> in cmd/main.go and
  \<open>orderFromParts\<close> in the server): the fields they do not set hold Go's zero values.
  The ticker, which the book never reads, is that of \<open>TestOrderBook\<close>.
\<close>

definition mkOrder :: "string \<Rightarrow> string \<Rightarrow> price \<Rightarrow> int \<Rightarrow> Order" where
  "mkOrder side orderType price0 size0 =
     \<lparr>Price = price0, Id' = 0, Ticker = ''QQQ'', Size = size0, OrderType = GetType orderType,
      Side = side, Timestamp = 0, GTC = False, FOK = False\<rparr>"

subsection \<open>StopMatching\<close>

text \<open>
  Go leaves the iteration order of \<open>range\<close> over a map unspecified. Every \<open>range\<close>
  of the source takes the order in which the keys are produced as a list; a key that is
  no longer in the map when it is reached is not produced. The theorems hold for every
  list; in the examples each list is a permutation of the keys that the map then has.
  The keys are numbers: a NaN key, which Go's \<open>delete\<close> does not remove and no lookup
  finds, is outside the model, and what is proved of a level is proved of the levels at
  prices that are numbers.
\<close>

fun keepGTC :: "price list \<Rightarrow> side \<Rightarrow> side" where
  "keepGTC [] m = m"
| "keepGTC (price # rest) m =
     (case map_of m price of
        None \<Rightarrow> keepGTC rest m
      | Some bids \<Rightarrow>
          (let newBids = filter GTC bids
           in if length newBids = 0 then keepGTC rest (AList.delete price m)
              else keepGTC rest (AList.update price newBids m)))"

definition StopMatching :: "price list \<Rightarrow> price list \<Rightarrow> OrderBook \<Rightarrow> panic + OrderBook" where
  "StopMatching bidKeys askKeys ob =
     (if stopChan ob = Closed then Inl CloseOfClosedChannel
      else Inr (ob\<lparr>stopChan := Closed,
                   Bids := keepGTC bidKeys (Bids ob),
                   Asks := keepGTC askKeys (Asks ob)\<rparr>))"

subsection \<open>MatchOrders\<close>

text \<open>
  What the pass prints: a fill (price, volume, bid id, ask id) or the line
  "No matches found this iteration".
\<close>

datatype event = Fill price int int int | NoMatches

text \<open>
  Slices. The locals \<open>bids\<close> and \<open>asks\<close> are slices (backing array, length) taken from
  the map when \<open>range\<close> reaches the key, and the map entry shares the backing array.
  \<open>append(s[:k], s[k+1:]...)\<close> shifts the elements after \<open>k\<close> down inside that array
  and returns a slice one shorter; every other slice of the array sees the shifted
  contents. \<open>index buf n k\<close> is \<open>s[k]\<close> for the slice \<open>(buf, n)\<close>, whose
  elements are \<open>take n buf\<close>. \<open>removeAt buf n k\<close> is the removal on that slice: it panics
  unless \<open>0 \<le> k < n\<close>, and returns the new contents of the array and the new length.
  \<open>aliased p buf m\<close> lets the map entry at \<open>p\<close>, when there is one, see the new
  contents of its backing array.
\<close>

definition index :: "Order list \<Rightarrow> nat \<Rightarrow> int \<Rightarrow> panic + Order" where
  "index buf n k =
     (if 0 \<le> k \<and> k < int (length (take n buf)) then Inr (take n buf ! nat k)
      else Inl IndexOutOfRange)"

definition removeAt :: "Order list \<Rightarrow> nat \<Rightarrow> int \<Rightarrow> panic + (Order list \<times> nat)" where
  "removeAt buf n k =
     (if 0 \<le> k \<and> k < int n then
        Inr (take (nat k) buf @ take (n - 1 - nat k) (drop (nat k + 1) buf) @ drop (n - 1) buf,
             n - 1)
      else Inl SliceBoundsOutOfRange)"

definition aliased :: "price \<Rightarrow> Order list \<Rightarrow> side \<Rightarrow> side" where
  "aliased p buf m =
     (case map_of m p of None \<Rightarrow> m | Some xs \<Rightarrow> AList.update p (take (length xs) buf) m)"

record matchState =
  obBids :: side
  obAsks :: side
  bidsBuf :: "Order list"
  bidsLen :: nat
  asksBuf :: "Order list"
  asksLen :: nat
  matches :: bool
  printed :: "event list"

datatype flow = Continue | Break

type_synonym 'a result = "(panic \<times> event list) + 'a"

text \<open>Lines 80-87: the cancellation of a Fill-or-Kill order, then \<open>continue\<close>.\<close>

definition killFOK ::
  "price \<Rightarrow> price \<Rightarrow> int \<Rightarrow> Order \<Rightarrow> Order \<Rightarrow> int \<Rightarrow> matchState
     \<Rightarrow> (flow \<times> int \<times> Order \<times> int \<times> matchState) result" where
  "killFOK bidPrice askPrice i bid ask j st =
     (if FOK bid then
        (case removeAt (bidsBuf st) (bidsLen st) i of
           Inl e \<Rightarrow> Inl (e, printed st)
         | Inr (buf, n) \<Rightarrow>
             Inr (Continue, i - 1, bid, j,
                  st\<lparr>bidsBuf := buf, bidsLen := n, obBids := aliased bidPrice buf (obBids st)\<rparr>))
      else
        (case removeAt (asksBuf st) (asksLen st) j of
           Inl e \<Rightarrow> Inl (e, printed st)
         | Inr (buf, n) \<Rightarrow>
             Inr (Continue, i, bid, j - 1,
                  st\<lparr>asksBuf := buf, asksLen := n, obAsks := aliased askPrice buf (obAsks st)\<rparr>)))"

text \<open>Lines 103-109: the ask is taken out of the map entry at index \<open>j\<close>.\<close>

definition cleanAsk :: "price \<Rightarrow> int \<Rightarrow> matchState \<Rightarrow> (int \<times> matchState) result" where
  "cleanAsk askPrice j st =
     (case removeAt (asksBuf st) (length (level (obAsks st) askPrice)) j of
        Inl e \<Rightarrow> Inl (e, printed st)
      | Inr (buf, n) \<Rightarrow>
          (let asks1 = AList.update askPrice (take n buf) (obAsks st)
           in Inr (j - 1,
                   st\<lparr>asksBuf := buf,
                      obAsks := (if length (level asks1 askPrice) = 0
                                 then AList.delete askPrice asks1 else asks1)\<rparr>)))"

text \<open>Lines 112-120: the bid is taken out of the local slice, which is stored back.\<close>

definition cleanBid :: "price \<Rightarrow> int \<Rightarrow> matchState \<Rightarrow> (int \<times> matchState) result" where
  "cleanBid bidPrice i st =
     (case removeAt (bidsBuf st) (bidsLen st) i of
        Inl e \<Rightarrow> Inl (e, printed st)
      | Inr (buf, n) \<Rightarrow>
          (let bids1 = AList.update bidPrice (take n buf) (obBids st)
           in Inr (i - 1,
                   st\<lparr>bidsBuf := buf, bidsLen := n,
                      obBids := (if length (level bids1 bidPrice) = 0
                                 then AList.delete bidPrice bids1 else bids1)\<rparr>)))"

text \<open>
  Lines 91-121. \<open>bid\<close> and \<open>ask\<close> are copies of the slice elements: the subtraction
  changes the copies only.
\<close>

definition fillPair ::
  "price \<Rightarrow> price \<Rightarrow> int \<Rightarrow> Order \<Rightarrow> Order \<Rightarrow> int \<Rightarrow> int \<Rightarrow> matchState
     \<Rightarrow> (flow \<times> int \<times> Order \<times> int \<times> matchState) result" where
  "fillPair bidPrice askPrice i bid ask j vol st =
     (if vol > 0 then
        (let st1 = st\<lparr>matches := True,
                      printed := printed st @ [Fill askPrice vol (Id' bid) (Id' ask)]\<rparr>;
             bid1 = bid\<lparr>Size := Size bid - vol\<rparr>;
             ask1 = ask\<lparr>Size := Size ask - vol\<rparr>
         in case (if Size ask1 = 0 then cleanAsk askPrice j st1 else Inr (j, st1)) of
              Inl e \<Rightarrow> Inl e
            | Inr (j1, st2) \<Rightarrow>
                if Size bid1 = 0 then
                  (case cleanBid bidPrice i st2 of
                     Inl e \<Rightarrow> Inl e
                   | Inr (i1, st3) \<Rightarrow> Inr (Break, i1, bid1, j1, st3))
                else Inr (Continue, i, bid1, j1, st2))
      else Inr (Continue, i, bid, j, st))"

text \<open>Lines 70-122: the body of the loop over \<open>j\<close>.\<close>

definition pairStep ::
  "price \<Rightarrow> price \<Rightarrow> int \<Rightarrow> Order \<Rightarrow> int \<Rightarrow> matchState
     \<Rightarrow> (flow \<times> int \<times> Order \<times> int \<times> matchState) result" where
  "pairStep bidPrice askPrice i bid j st =
     (case index (asksBuf st) (asksLen st) i of
        Inl e \<Rightarrow> Inl (e, printed st)
      | Inr ask \<Rightarrow>
          if OrderType bid = 1 \<or> OrderType ask = 1 then
            (let vol = min (Size bid) (Size ask)
             in if FOK bid \<or> FOK ask then
                  (if vol \<noteq> Size bid \<and> vol \<noteq> Size ask
                   then killFOK bidPrice askPrice i bid ask j st
                   else fillPair bidPrice askPrice i bid ask j vol st)
                else fillPair bidPrice askPrice i bid ask j vol st)
          else Inr (Continue, i, bid, j, st))"

subsection \<open>The loops of MatchOrders\<close>

text \<open>
  The loop over \<open>j\<close> does not always advance: after an ask is taken out, \<open>j--\<close>
  and the loop's \<open>j++\<close> leave \<open>j\<close> where it was. It still ends, because each such
  round shortens the map entry, and the next removal from an entry that is gone panics.
  The lemmas below give the measure.
\<close>

text \<open>
  \<open>removeAt\<close> on a slice within its array: the slice returned is the old one without
  element \<open>k\<close>, the array keeps its length, and a slice of the old length over the
  same array now ends with the old last element twice.
\<close>

lemma removeAt_slice:
  assumes "removeAt buf n k = Inr (buf', n')" and "n \<le> length buf"
  shows "take n' buf' = take (nat k) (take n buf) @ drop (nat k + 1) (take n buf)"
    and "length buf' = length buf"
    and "take n buf' = take n' buf' @ [buf ! (n - 1)]"
proof -
  from assms(1) have k: "0 \<le> k" "nat k < n" and n': "n' = n - 1"
    and b: "buf' = take (nat k) buf @ take (n - 1 - nat k) (drop (nat k + 1) buf) @ drop (n - 1) buf"
    by (auto simp: removeAt_def split: if_splits)
  from k assms(2) have l1: "length (take (nat k) buf) = nat k"
    and l2: "length (take (n - 1 - nat k) (drop (nat k + 1) buf)) = n - 1 - nat k"
    by simp_all
  from k assms(2) show "length buf' = length buf"
    unfolding b by simp
  from k assms(2) have t: "take n' buf' = take (nat k) buf @ take (n - 1 - nat k) (drop (nat k + 1) buf)"
    unfolding b n' by simp
  also from k have "\<dots> = take (nat k) (take n buf) @ drop (nat k + 1) (take n buf)"
    by (simp add: drop_take min_def)
  finally show "take n' buf' = take (nat k) (take n buf) @ drop (nat k + 1) (take n buf)" .
  from k assms(2) have "take n buf' = take (nat k) buf @ take (n - 1 - nat k) (drop (nat k + 1) buf)
      @ take 1 (drop (n - 1) buf)"
    unfolding b by simp
  also from k assms(2) have "take 1 (drop (n - 1) buf) = [buf ! (n - 1)]"
    by (simp add: take_Suc_conv_app_nth)
  finally show "take n buf' = take n' buf' @ [buf ! (n - 1)]"
    using t by simp
qed

lemma removeAt_Inr:
  "removeAt buf n k = Inr (buf', n') \<Longrightarrow> n' = n - 1 \<and> 0 \<le> k \<and> k < int n"
  by (auto simp: removeAt_def split: if_splits)

lemma level_update [simp]: "level (AList.update p xs m) p = xs"
  by (simp add: level_def update_conv')

lemma level_delete [simp]: "level (AList.delete p m) p = []"
  by (simp add: level_def delete_conv')

lemma cleanAsk_Inr:
  "cleanAsk ap j st = Inr (j', st') \<Longrightarrow>
     j' = j - 1 \<and> asksLen st' = asksLen st \<and> bidsLen st' = bidsLen st
     \<and> length (level (obAsks st') ap) < length (level (obAsks st) ap)"
  by (auto simp: cleanAsk_def Let_def split: sum.splits if_splits dest!: removeAt_Inr)

lemma cleanBid_Inr:
  "cleanBid bp i st = Inr (i', st') \<Longrightarrow>
     i' = i - 1 \<and> asksLen st' = asksLen st \<and> bidsLen st' = bidsLen st - 1
     \<and> 0 \<le> i \<and> i < int (bidsLen st) \<and> obAsks st' = obAsks st"
  by (auto simp: cleanBid_def Let_def split: sum.splits if_splits dest!: removeAt_Inr)

lemma pairStep_decreases:
  assumes "pairStep bp ap i bid j st = Inr (Continue, i', bid', j', st')"
    and "j < int (asksLen st)"
  shows "nat (int (asksLen st') - (j' + 1)) < nat (int (asksLen st) - j)
       \<or> (nat (int (asksLen st') - (j' + 1)) = nat (int (asksLen st) - j)
          \<and> length (level (obAsks st') ap) < length (level (obAsks st) ap))"
  using assms
  by (auto simp: pairStep_def killFOK_def fillPair_def Let_def
      split: sum.splits if_splits dest!: removeAt_Inr cleanAsk_Inr cleanBid_Inr)

text \<open>Lines 69-123: \<open>for j := 0; j < len(asks); j++\<close>. The result is \<open>i\<close> and the state.\<close>

function jloop ::
  "price \<Rightarrow> price \<Rightarrow> int \<Rightarrow> Order \<Rightarrow> int \<Rightarrow> matchState \<Rightarrow> (int \<times> matchState) result" where
  "jloop bidPrice askPrice i bid j st =
     (if j < int (asksLen st) then
        (case pairStep bidPrice askPrice i bid j st of
           Inl e \<Rightarrow> Inl e
         | Inr (Break, i1, bid1, j1, st1) \<Rightarrow> Inr (i1, st1)
         | Inr (Continue, i1, bid1, j1, st1) \<Rightarrow> jloop bidPrice askPrice i1 bid1 (j1 + 1) st1)
      else Inr (i, st))"
  by pat_completeness auto
termination
proof (relation "measures [\<lambda>(bp, ap, i, bid, j, st). nat (int (asksLen st) - j),
                           \<lambda>(bp, ap, i, bid, j, st). length (level (obAsks st) ap)]", goal_cases)
  case 1
  show ?case by simp
next
  case (2 bidPrice askPrice i bid j st x2 x1 x2a x1a x2b x1b x2c x1c x2d)
  then have "pairStep bidPrice askPrice i bid j st = Inr (Continue, x1a, x1b, x1c, x2d)"
    by simp
  from pairStep_decreases [OF this \<open>j < int (asksLen st)\<close>] show ?case
    by auto
qed

lemma pairStep_bids:
  "pairStep bp ap i bid j st = Inr (f, i', bid', j', st') \<Longrightarrow>
     int (bidsLen st') - i' = int (bidsLen st) - i"
  by (auto simp: pairStep_def killFOK_def fillPair_def Let_def
      split: sum.splits if_splits dest!: removeAt_Inr cleanAsk_Inr cleanBid_Inr)

lemma jloop_bids:
  "jloop bp ap i bid j st = Inr (i', st') \<Longrightarrow> int (bidsLen st') - i' = int (bidsLen st) - i"
proof (induction bp ap i bid j st rule: jloop.induct)
  case (1 bp ap i bid j st)
  show ?case
  proof (cases "j < int (asksLen st)")
    case False
    with "1.prems" show ?thesis by simp
  next
    case True
    show ?thesis
    proof (cases "pairStep bp ap i bid j st")
      case (Inl e)
      with True "1.prems" show ?thesis by simp
    next
      case (Inr r)
      obtain f i1 bid1 j1 st1 where r: "r = (f, i1, bid1, j1, st1)"
        by (cases r) auto
      from Inr r have step: "int (bidsLen st1) - i1 = int (bidsLen st) - i"
        by (auto dest: pairStep_bids)
      show ?thesis
      proof (cases f)
        case Break
        with True Inr r "1.prems" step show ?thesis by simp
      next
        case Continue
        with True Inr r "1.prems" have "jloop bp ap i1 bid1 (j1 + 1) st1 = Inr (i', st')"
          by simp
        with "1.IH" True Inr r Continue have "int (bidsLen st') - i' = int (bidsLen st1) - i1"
          by auto
        with step show ?thesis
          by simp
      qed
    qed
  qed
qed

text \<open>Lines 66-124: \<open>for i := 0; i < len(bids); i++\<close>.\<close>

function iloop :: "price \<Rightarrow> price \<Rightarrow> int \<Rightarrow> matchState \<Rightarrow> matchState result" where
  "iloop bidPrice askPrice i st =
     (if i < int (bidsLen st) then
        (case index (bidsBuf st) (bidsLen st) i of
           Inl e \<Rightarrow> Inl (e, printed st)
         | Inr bid \<Rightarrow>
             (case jloop bidPrice askPrice i bid 0 st of
                Inl e \<Rightarrow> Inl e
              | Inr (i1, st1) \<Rightarrow> iloop bidPrice askPrice (i1 + 1) st1))
      else Inr st)"
  by pat_completeness auto
termination
proof (relation "measure (\<lambda>(bp, ap, i, st). nat (int (bidsLen st) - i))", goal_cases)
  case 1
  show ?case by simp
next
  case (2 bidPrice askPrice i st bid r i1 st1)
  then have "jloop bidPrice askPrice i bid 0 st = Inr (i1, st1)"
    by simp
  from jloop_bids [OF this] \<open>i < int (bidsLen st)\<close> show ?case
    by simp
qed

text \<open>The equations of the two loops are unfolded only where a proof asks for them.\<close>

declare jloop.simps [simp del] iloop.simps [simp del]

text \<open>Lines 63-126: \<open>for askPrice, asks := range ob.Asks\<close>, the keys in the order given.\<close>

fun askLoop :: "price \<Rightarrow> price list \<Rightarrow> matchState \<Rightarrow> matchState result" where
  "askLoop bidPrice [] st = Inr st"
| "askLoop bidPrice (askPrice # rest) st =
     (case map_of (obAsks st) askPrice of
        None \<Rightarrow> askLoop bidPrice rest st
      | Some asks \<Rightarrow>
          (let st1 = st\<lparr>asksBuf := asks, asksLen := length asks\<rparr>
           in if bidPrice \<ge> askPrice then
                (case iloop bidPrice askPrice 0 st1 of
                   Inl e \<Rightarrow> Inl e
                 | Inr st2 \<Rightarrow> askLoop bidPrice rest st2)
              else askLoop bidPrice rest st1))"

text \<open>
  Lines 61-130: \<open>for bidPrice, bids := range ob.Bids\<close>. Each bid key comes with the
  order in which the inner \<open>range ob.Asks\<close> of that round produces the ask keys.
\<close>

fun bidLoop :: "(price \<times> price list) list \<Rightarrow> matchState \<Rightarrow> matchState result" where
  "bidLoop [] st = Inr st"
| "bidLoop ((bidPrice, askKeys) # rest) st =
     (case map_of (obBids st) bidPrice of
        None \<Rightarrow> bidLoop rest st
      | Some bids \<Rightarrow>
          (case askLoop bidPrice askKeys (st\<lparr>bidsBuf := bids, bidsLen := length bids\<rparr>) of
             Inl e \<Rightarrow> Inl e
           | Inr st1 \<Rightarrow>
               bidLoop rest
                 (if \<not> matches st1 then st1\<lparr>printed := printed st1 @ [NoMatches]\<rparr> else st1)))"

text \<open>
  MatchOrders returns the book and what it printed, or the panic and what it had
  printed before.
\<close>

definition MatchOrders ::
  "(price \<times> price list) list \<Rightarrow> OrderBook \<Rightarrow> (OrderBook \<times> event list) result" where
  "MatchOrders keys ob =
     (if length (Bids ob) = 0 \<or> length (Asks ob) = 0 then Inr (ob, [])
      else
        (case bidLoop keys
                \<lparr>obBids = Bids ob, obAsks = Asks ob, bidsBuf = [], bidsLen = 0,
                 asksBuf = [], asksLen = 0, matches = False, printed = []\<rparr> of
           Inl e \<Rightarrow> Inl e
         | Inr st \<Rightarrow> Inr (ob\<lparr>Bids := obBids st, Asks := obAsks st\<rparr>, printed st)))"

section \<open>Runs of a book\<close>

text \<open>
  A run is a sequence of calls on one book, in the order in which they acquire the
  mutex. An unrecovered panic ends the process, and the run with it.
\<close>

datatype call =
    Submit nat Order
  | Match "(price \<times> price list) list"
  | Stop "price list" "price list"

fun exec :: "(Order list \<Rightarrow> Order list) \<Rightarrow> call \<Rightarrow> OrderBook \<Rightarrow> panic + OrderBook" where
  "exec sortSlice (Submit now order0) ob = Inr (AddOrder sortSlice now order0 ob)"
| "exec sortSlice (Match keys) ob =
     (case MatchOrders keys ob of Inl (e, out) \<Rightarrow> Inl e | Inr (ob1, out) \<Rightarrow> Inr ob1)"
| "exec sortSlice (Stop bidKeys askKeys) ob = StopMatching bidKeys askKeys ob"

fun run :: "(Order list \<Rightarrow> Order list) \<Rightarrow> call list \<Rightarrow> OrderBook \<Rightarrow> panic + OrderBook" where
  "run sortSlice [] ob = Inr ob"
| "run sortSlice (c # cs) ob =
     (case exec sortSlice c ob of Inl e \<Rightarrow> Inl e | Inr ob1 \<Rightarrow> run sortSlice cs ob1)"

fun submissions :: "call list \<Rightarrow> Order list" where
  "submissions [] = []"
| "submissions (Submit now order0 # cs) = order0 # submissions cs"
| "submissions (c # cs) = submissions cs"

text \<open>The orders resting on a side, and a property of all of them.\<close>

definition resting :: "side \<Rightarrow> Order list" where
  "resting m = concat (map snd m)"

definition bookAll :: "(Order \<Rightarrow> bool) \<Rightarrow> OrderBook \<Rightarrow> bool" where
  "bookAll P ob = (list_all P (resting (Bids ob)) \<and> list_all P (resting (Asks ob)))"

text \<open>
  \<open>AddOrder\<close> returns nothing: the id it has given an order is the \<open>Id\<close> of the order
  it has put in the book. \<open>added ob ob1\<close> are the orders of the book \<open>ob1\<close> that the
  book \<open>ob\<close> did not hold (each order of \<open>ob\<close> is taken out of those of \<open>ob1\<close> once).
  \<open>assignedIds\<close> reads, right after each submission of a run, the ids of the orders
  that the submission has added, in the order of the calls. \<open>accepted\<close> is the test of
  lines 189 and 194: the order goes to one of the two sides.
\<close>

definition orders :: "OrderBook \<Rightarrow> Order list" where
  "orders ob = resting (Bids ob) @ resting (Asks ob)"

definition added :: "OrderBook \<Rightarrow> OrderBook \<Rightarrow> Order list" where
  "added ob ob1 = fold remove1 (orders ob) (orders ob1)"

fun assignedIds :: "(Order list \<Rightarrow> Order list) \<Rightarrow> call list \<Rightarrow> OrderBook \<Rightarrow> int list" where
  "assignedIds sortSlice [] ob = []"
| "assignedIds sortSlice (c # cs) ob =
     (case exec sortSlice c ob of
        Inl e \<Rightarrow> []
      | Inr ob1 \<Rightarrow>
          (case c of Submit now order0 \<Rightarrow> map Id' (added ob ob1) | _ \<Rightarrow> [])
          @ assignedIds sortSlice cs ob1)"

definition accepted :: "Order \<Rightarrow> bool" where
  "accepted order0 = (Side order0 = ''buy'' \<or> Side order0 = ''sell'')"

section \<open>The vocabulary of the statements\<close>

text \<open>
  The book that \<open>TestOrderBook\<close> (cmd/main.go) has built when it calls
  \<open>StopMatching\<close>: of its ten orders, the two market orders of test 1 have traded and
  the others rest.
\<close>

definition testBook :: OrderBook where
  "testBook =
     \<lparr>Bids = [(99, [stamped 2 3 (mkOrder ''buy'' ''market'' 99 10)]),
              (100, [stamped 4 5 (mkOrder ''buy'' ''fok'' 100 10),
                     stamped 6 7 (mkOrder ''buy'' ''fok'' 100 5)]),
              (98, [stamped 8 9 (mkOrder ''buy'' ''gtc'' 98 90)])],
      Asks = [(101, [stamped 3 4 (mkOrder ''sell'' ''market'' 101 10)]),
              (100, [stamped 5 6 (mkOrder ''sell'' ''fok'' 100 10),
                     stamped 7 8 (mkOrder ''sell'' ''fok'' 100 10)]),
              (102, [stamped 9 10 (mkOrder ''sell'' ''gtc'' 102 30)])],
      nextOrderID = 10, stopChan = Open\<rparr>"

text \<open>
  What a step of the loop over \<open>j\<close> has printed when it ends, normally or by a panic.
\<close>

definition printedBy :: "(flow \<times> int \<times> Order \<times> int \<times> matchState) result \<Rightarrow> event list" where
  "printedBy r = (case r of Inl (e, out) \<Rightarrow> out | Inr (f, i, bid, j, st) \<Rightarrow> printed st)"

text \<open>
  A fill as the pass can print it on the book \<open>ob\<close>: a positive volume, at the price
  \<open>p\<close> of an ask level that holds an order with the ask's id, for a bid with the bid's
  id at a level of price at least \<open>p\<close>.
\<close>

definition crossingFill :: "OrderBook \<Rightarrow> event \<Rightarrow> bool" where
  "crossingFill ob e =
     (case e of
        NoMatches \<Rightarrow> True
      | Fill p v b a \<Rightarrow>
          0 < v
          \<and> list_ex (\<lambda>bp. p \<le> bp \<and> list_ex (\<lambda>x. Id' x = b) (level (Bids ob) bp))
               (map fst (Bids ob))
          \<and> list_ex (\<lambda>x. Id' x = a) (level (Asks ob) p))"

text \<open>
  Invariants of the loops. \<open>stateAll P\<close>: every stored order (in the maps and in the
  backing arrays of the locals) has the property \<open>P\<close>. \<open>stateInv Pb Pa\<close> is the same
  with properties that depend on the side and on the price of the level, read through
  \<open>level\<close>. \<open>loopInv\<close> adds that everything printed so far is such a fill.
\<close>

definition stateAll :: "(Order \<Rightarrow> bool) \<Rightarrow> matchState \<Rightarrow> bool" where
  "stateAll P st =
     (list_all P (resting (obBids st)) \<and> list_all P (resting (obAsks st))
      \<and> list_all P (bidsBuf st) \<and> list_all P (asksBuf st))"

definition levelsAll :: "(price \<Rightarrow> Order \<Rightarrow> bool) \<Rightarrow> side \<Rightarrow> bool" where
  "levelsAll P m = (\<forall>p. list_all (P p) (level m p))"

definition stateInv ::
  "(price \<Rightarrow> Order \<Rightarrow> bool) \<Rightarrow> (price \<Rightarrow> Order \<Rightarrow> bool) \<Rightarrow> price \<Rightarrow> price \<Rightarrow> matchState \<Rightarrow> bool" where
  "stateInv Pb Pa bp ap st =
     (levelsAll Pb (obBids st) \<and> levelsAll Pa (obAsks st)
      \<and> list_all (Pb bp) (bidsBuf st) \<and> list_all (Pa ap) (asksBuf st))"

definition loopInv :: "OrderBook \<Rightarrow> matchState \<Rightarrow> bool" where
  "loopInv ob st =
     (levelsAll (\<lambda>p x. x \<in> set (level (Bids ob) p)) (obBids st)
      \<and> levelsAll (\<lambda>p x. x \<in> set (level (Asks ob) p)) (obAsks st)
      \<and> list_all (crossingFill ob) (printed st))"

section \<open>Submission\<close>

lemmas evaluate = NewOrderBook_def mkOrder_def stamped_def GetType_def AddOrder_def
  MatchOrders_def pairStep_def fillPair_def killFOK_def cleanAsk_def cleanBid_def index_def
  removeAt_def level_def goInt_def Let_def jloop.simps iloop.simps

lemma goInt_succ_neq: "goInt (n + 1) \<noteq> n"
proof
  assume h: "goInt (n + 1) = n"
  have "0 \<le> (n + 1 + 2 ^ 63) mod (2 ^ 64 :: int)" "(n + 1 + 2 ^ 63) mod (2 ^ 64 :: int) < 2 ^ 64"
    by simp_all
  with h have r: "- (2 ^ 63) \<le> n" "n < 2 ^ 63"
    by (auto simp: goInt_def)
  show False
  proof (cases "n = 2 ^ 63 - 1")
    case True
    with h show False by (simp add: goInt_def)
  next
    case False
    with r have "0 \<le> n + 1 + 2 ^ 63" "n + 1 + 2 ^ 63 < 2 ^ 64" by simp_all
    then have "(n + 1 + 2 ^ 63) mod 2 ^ 64 = n + 1 + 2 ^ 63"
      by simp
    with h show False by (simp add: goInt_def)
  qed
qed

lemma goInt_id: "- (2 ^ 63) \<le> n \<Longrightarrow> n < 2 ^ 63 \<Longrightarrow> goInt n = n"
  by (simp add: goInt_def)

text \<open>
  C10. An order whose \<open>Side\<close> is neither "buy" nor "sell" is put on neither side of the
  book: \<open>Bids\<close> and \<open>Asks\<close> are unchanged. The id counter is incremented all the same,
  so the id is used up: the next order that is accepted is stored with the id after it.
\<close>

theorem AddOrder_unknown_side:
  assumes "Side order0 \<noteq> ''buy''" and "Side order0 \<noteq> ''sell''"
  shows "Bids (AddOrder sortSlice now order0 ob) = Bids ob
       \<and> Asks (AddOrder sortSlice now order0 ob) = Asks ob
       \<and> nextOrderID (AddOrder sortSlice now order0 ob) = goInt (nextOrderID ob + 1)
       \<and> nextOrderID (AddOrder sortSlice now order0 ob) \<noteq> nextOrderID ob
       \<and> (Side next0 = ''buy'' \<longrightarrow>
            level (Bids (AddOrder sortSlice now1 next0 (AddOrder sortSlice now order0 ob)))
              (Price next0)
            = sortSlice (level (Bids ob) (Price next0)
                @ [stamped (goInt (nextOrderID ob + 1)) now1 next0]))"
  using assms goInt_succ_neq [of "nextOrderID ob"]
  by (auto simp: AddOrder_def Let_def stamped_def)

theorem AddOrder_unknown_side_witness:
  "Side (mkOrder ''hold'' ''market'' 100 10) \<noteq> ''buy''
   \<and> Side (mkOrder ''hold'' ''market'' 100 10) \<noteq> ''sell''
   \<and> Side (mkOrder ''buy'' ''gtc'' 100 10) = ''buy''
   \<and> Bids (AddOrder (sort_key Timestamp) 5 (mkOrder ''hold'' ''market'' 100 10) NewOrderBook) = []
   \<and> Asks (AddOrder (sort_key Timestamp) 5 (mkOrder ''hold'' ''market'' 100 10) NewOrderBook) = []
   \<and> nextOrderID (AddOrder (sort_key Timestamp) 5 (mkOrder ''hold'' ''market'' 100 10) NewOrderBook) = 1
   \<and> level (Bids (AddOrder (sort_key Timestamp) 6 (mkOrder ''buy'' ''gtc'' 100 10)
                (AddOrder (sort_key Timestamp) 5 (mkOrder ''hold'' ''market'' 100 10) NewOrderBook))) 100
     = [\<lparr>Price = 100, Id' = 1, Ticker = ''QQQ'', Size = 10, OrderType = 3,
         Side = ''buy'', Timestamp = 6, GTC = True, FOK = False\<rparr>]"
proof -
  have s1: "Side (mkOrder ''hold'' ''market'' 100 10) \<noteq> ''buy''"
    and s2: "Side (mkOrder ''hold'' ''market'' 100 10) \<noteq> ''sell''"
    by (simp_all add: mkOrder_def)
  from AddOrder_unknown_side [OF s1 s2, of "sort_key Timestamp" 5 NewOrderBook
      "mkOrder ''buy'' ''gtc'' 100 10" 6]
  show ?thesis
    by (simp add: mkOrder_def GetType_def NewOrderBook_def level_def goInt_def stamped_def)
qed

lemma MatchOrders_nextOrderID:
  "MatchOrders keys ob = Inr (ob1, out) \<Longrightarrow> nextOrderID ob1 = nextOrderID ob"
  by (auto simp: MatchOrders_def split: if_splits sum.splits)

lemma StopMatching_nextOrderID:
  "StopMatching bidKeys askKeys ob = Inr ob1 \<Longrightarrow> nextOrderID ob1 = nextOrderID ob"
  by (auto simp: StopMatching_def split: if_splits)

lemma AddOrder_nextOrderID:
  "nextOrderID (AddOrder sortSlice now order0 ob) = goInt (nextOrderID ob + 1)"
  by (simp add: AddOrder_def Let_def)

lemma exec_nextOrderID:
  "exec sortSlice c ob = Inr ob1 \<Longrightarrow>
     nextOrderID ob1 = (case c of Submit now order0 \<Rightarrow> goInt (nextOrderID ob + 1)
                        | _ \<Rightarrow> nextOrderID ob)"
  by (cases c)
    (auto simp: AddOrder_nextOrderID split: sum.splits
      dest: MatchOrders_nextOrderID StopMatching_nextOrderID)

lemma goInt_range: "- (2 ^ 63) \<le> goInt n \<and> goInt n < 2 ^ 63"
proof -
  have "0 \<le> (n + 2 ^ 63) mod (2 ^ 64 :: int)" "(n + 2 ^ 63) mod (2 ^ 64 :: int) < 2 ^ 64"
    by simp_all
  then show ?thesis by (simp add: goInt_def)
qed

lemma goInt_add: "goInt (goInt a + b) = goInt (a + b)"
proof -
  have "(goInt a + b + 2 ^ 63) mod (2 ^ 64 :: int)
      = ((a + 2 ^ 63) mod 2 ^ 64 + b) mod 2 ^ 64"
    by (simp add: goInt_def algebra_simps)
  also have "\<dots> = (a + 2 ^ 63 + b) mod 2 ^ 64"
    by (rule mod_add_left_eq)
  also have "\<dots> = (a + b + 2 ^ 63) mod 2 ^ 64"
    by (simp add: algebra_simps)
  finally show ?thesis by (simp add: goInt_def)
qed

text \<open>What \<open>AddOrder\<close> does to the book, by the side of the order.\<close>

lemma AddOrder_buy:
  "Side order0 = ''buy'' \<Longrightarrow>
     AddOrder sortSlice now order0 ob
       = ob\<lparr>nextOrderID := goInt (nextOrderID ob + 1),
            Bids := AList.update (Price order0)
              (sortSlice (level (Bids ob) (Price order0) @ [stamped (nextOrderID ob) now order0]))
              (Bids ob)\<rparr>"
  by (auto simp: AddOrder_def Let_def stamped_def)

lemma AddOrder_sell:
  "Side order0 = ''sell'' \<Longrightarrow>
     AddOrder sortSlice now order0 ob
       = ob\<lparr>nextOrderID := goInt (nextOrderID ob + 1),
            Asks := AList.update (Price order0)
              (sortSlice (level (Asks ob) (Price order0) @ [stamped (nextOrderID ob) now order0]))
              (Asks ob)\<rparr>"
  by (auto simp: AddOrder_def Let_def stamped_def)

lemma AddOrder_dropped:
  "\<not> accepted order0 \<Longrightarrow>
     AddOrder sortSlice now order0 ob = ob\<lparr>nextOrderID := goInt (nextOrderID ob + 1)\<rparr>"
  by (auto simp: AddOrder_def Let_def accepted_def)

lemma AddOrder_stores_id:
  "Side order0 = ''buy'' \<Longrightarrow>
     level (Bids (AddOrder sortSlice now order0 ob)) (Price order0)
       = sortSlice (level (Bids ob) (Price order0) @ [stamped (nextOrderID ob) now order0])"
  "Side order0 = ''sell'' \<Longrightarrow>
     level (Asks (AddOrder sortSlice now order0 ob)) (Price order0)
       = sortSlice (level (Asks ob) (Price order0) @ [stamped (nextOrderID ob) now order0])"
  by (simp_all add: AddOrder_buy AddOrder_sell)

lemma id_counter_wraps:
  "nextOrderID ob = 2 ^ 63 - 1 \<Longrightarrow>
     nextOrderID (AddOrder sortSlice now order0 ob) = - (2 ^ 63)"
  by (simp add: AddOrder_nextOrderID goInt_def)

text \<open>The orders that a call adds to the book.\<close>

lemma mset_fold_remove1: "mset (fold remove1 xs ys) = mset ys - mset xs"
  by (induction xs arbitrary: ys) simp_all

lemma mset_resting_update:
  assumes "mset v = mset (level m p) + {#x#}"
  shows "mset (resting (AList.update p v m)) = mset (resting m) + {#x#}"
  using assms by (induction m) (auto simp: resting_def level_def)

lemma added_AddOrder:
  assumes "\<And>xs. mset (sortSlice xs) = mset xs"
  shows "added ob (AddOrder sortSlice now order0 ob)
       = (if accepted order0 then [stamped (nextOrderID ob) now order0] else [])"
proof -
  let ?x = "stamped (nextOrderID ob) now order0"
  let ?ob1 = "AddOrder sortSlice now order0 ob"
  have m: "mset (orders ?ob1) = mset (orders ob) + (if accepted order0 then {#?x#} else {#})"
  proof (cases "Side order0 = ''buy''")
    case True
    have "mset (resting (AList.update (Price order0)
        (sortSlice (level (Bids ob) (Price order0) @ [?x])) (Bids ob)))
      = mset (resting (Bids ob)) + {#?x#}"
      by (rule mset_resting_update) (simp add: assms)
    with True show ?thesis
      by (simp add: AddOrder_buy orders_def accepted_def)
  next
    case False
    show ?thesis
    proof (cases "Side order0 = ''sell''")
      case True
      have "mset (resting (AList.update (Price order0)
          (sortSlice (level (Asks ob) (Price order0) @ [?x])) (Asks ob)))
        = mset (resting (Asks ob)) + {#?x#}"
        by (rule mset_resting_update) (simp add: assms)
      with True show ?thesis
        by (simp add: AddOrder_sell orders_def accepted_def)
    next
      case sell: False
      with False have "\<not> accepted order0" by (simp add: accepted_def)
      then show ?thesis
        by (simp add: AddOrder_dropped orders_def)
    qed
  qed
  have "mset (added ob ?ob1) = (if accepted order0 then {#?x#} else {#})"
    by (simp add: added_def mset_fold_remove1 m)
  then show ?thesis
    by (cases "accepted order0") (simp_all add: mset_single_iff_right)
qed

lemma submissions_nth_Cons:
  "filter (\<lambda>k. accepted ((order0 # os) ! k)) [0..<Suc m]
     = (if accepted order0 then [0] else []) @ map Suc (filter (\<lambda>k. accepted (os ! k)) [0..<m])"
proof -
  have "[0..<Suc m] = 0 # map Suc [0..<m]"
    by (simp add: upt_conv_Cons map_Suc_upt del: upt_Suc)
  then show ?thesis
    by (simp add: filter_map comp_def del: upt_Suc)
qed

text \<open>
  The ids that a run assigns, whatever its length: the submission number \<open>k\<close>, when it
  is accepted, adds one order, whose id is the counter's first value plus \<open>k\<close> in
  64-bit arithmetic. \<open>m\<close> is the number of submissions that the run reaches.
\<close>

lemma assignedIds_shape:
  assumes "\<And>xs. mset (sortSlice xs) = mset xs"
    and "- (2 ^ 63) \<le> nextOrderID ob" and "nextOrderID ob < 2 ^ 63"
  shows "\<exists>m\<le>length (submissions cs).
           (\<forall>ob1. run sortSlice cs ob = Inr ob1 \<longrightarrow> m = length (submissions cs))
           \<and> assignedIds sortSlice cs ob
               = map (\<lambda>k. goInt (nextOrderID ob + int k))
                   (filter (\<lambda>k. accepted (submissions cs ! k)) [0..<m])"
  using assms(2,3)
proof (induction cs arbitrary: ob)
  case Nil
  show ?case by simp
next
  case (Cons c cs)
  show ?case
  proof (cases "exec sortSlice c ob")
    case (Inl e)
    then show ?thesis by (intro exI [of _ 0]) simp
  next
    case (Inr ob1)
    show ?thesis
    proof (cases c)
      case (Submit now order0)
      with Inr have ob1: "ob1 = AddOrder sortSlice now order0 ob" by simp
      then have n1: "nextOrderID ob1 = goInt (nextOrderID ob + 1)"
        by (simp add: AddOrder_nextOrderID)
      with goInt_range [of "nextOrderID ob + 1"]
      have "- (2 ^ 63) \<le> nextOrderID ob1" "nextOrderID ob1 < 2 ^ 63" by simp_all
      from Cons.IH [OF this] obtain m where m: "m \<le> length (submissions cs)"
        and full: "\<forall>ob2. run sortSlice cs ob1 = Inr ob2 \<longrightarrow> m = length (submissions cs)"
        and rest: "assignedIds sortSlice cs ob1
               = map (\<lambda>k. goInt (nextOrderID ob1 + int k))
                   (filter (\<lambda>k. accepted (submissions cs ! k)) [0..<m])"
        by blast
      have shift: "goInt (nextOrderID ob1 + int k) = goInt (nextOrderID ob + int (Suc k))" for k
        using goInt_add [of "nextOrderID ob + 1" "int k"] by (simp add: n1 algebra_simps)
      from Cons.prems have first: "goInt (nextOrderID ob + int 0) = nextOrderID ob"
        by (simp add: goInt_id)
      have here: "map Id' (added ob ob1) = (if accepted order0 then [nextOrderID ob] else [])"
        by (simp add: ob1 added_AddOrder [OF assms(1)] stamped_def)
      have "assignedIds sortSlice (c # cs) ob
          = (if accepted order0 then [nextOrderID ob] else [])
            @ map (\<lambda>k. goInt (nextOrderID ob + int (Suc k)))
                (filter (\<lambda>k. accepted (submissions cs ! k)) [0..<m])"
        using Inr Submit here rest by (simp add: shift)
      also have "\<dots> = map (\<lambda>k. goInt (nextOrderID ob + int k))
          (filter (\<lambda>k. accepted ((order0 # submissions cs) ! k)) [0..<Suc m])"
        using first by (simp only: submissions_nth_Cons) (simp add: comp_def)
      finally have "assignedIds sortSlice (c # cs) ob
          = map (\<lambda>k. goInt (nextOrderID ob + int k))
              (filter (\<lambda>k. accepted (submissions (c # cs) ! k)) [0..<Suc m])"
        using Submit by simp
      moreover from m Submit have "Suc m \<le> length (submissions (c # cs))" by simp
      moreover from full Inr Submit
      have "\<forall>ob2. run sortSlice (c # cs) ob = Inr ob2 \<longrightarrow> Suc m = length (submissions (c # cs))"
        by simp
      ultimately show ?thesis by blast
    next
      case (Match keys)
      with exec_nextOrderID [OF Inr] have "nextOrderID ob1 = nextOrderID ob"
        by simp
      with Cons.IH [of ob1] Cons.prems Match Inr show ?thesis by simp
    next
      case (Stop bk ak)
      with exec_nextOrderID [OF Inr] have "nextOrderID ob1 = nextOrderID ob"
        by simp
      with Cons.IH [of ob1] Cons.prems Stop Inr show ?thesis by simp
    qed
  qed
qed

text \<open>
  C9, as the code has it. Along any run of a new book (submissions, matching passes and
  shutdown, in the order in which they hold the mutex) with at most \<open>2 ^ 63\<close>
  submissions, the ids of the orders that the submissions put in the book are strictly
  increasing in the order of the calls, hence never reused; when the run completes, the
  submission number \<open>k\<close> (from 0) that is accepted has put one order in the book, and
  its id is \<open>k\<close>. \<open>sortSlice\<close> is any rearrangement, as \<open>sort.Slice\<close> is. The bound is
  that of the counter, a 64-bit \<open>int\<close> that is incremented without a check.
\<close>

theorem ids_strictly_increasing:
  assumes "\<And>xs. mset (sortSlice xs) = mset xs"
    and "length (submissions cs) \<le> 2 ^ 63"
  shows "sorted_wrt (<) (assignedIds sortSlice cs NewOrderBook)
       \<and> distinct (assignedIds sortSlice cs NewOrderBook)
       \<and> (run sortSlice cs NewOrderBook = Inr ob1 \<longrightarrow>
            assignedIds sortSlice cs NewOrderBook
              = map int (filter (\<lambda>k. accepted (submissions cs ! k))
                  [0..<length (submissions cs)]))"
proof -
  let ?ids = "assignedIds sortSlice cs NewOrderBook"
  let ?P = "\<lambda>k. accepted (submissions cs ! k)"
  have "- (2 ^ 63) \<le> nextOrderID NewOrderBook" "nextOrderID NewOrderBook < 2 ^ 63"
    by (simp_all add: NewOrderBook_def)
  from assignedIds_shape [OF assms(1) this, of cs]
  obtain m where m: "m \<le> length (submissions cs)"
    and full: "\<forall>ob1. run sortSlice cs NewOrderBook = Inr ob1 \<longrightarrow> m = length (submissions cs)"
    and ids: "?ids = map (\<lambda>k. goInt (int k)) (filter ?P [0..<m])"
    by (auto simp: NewOrderBook_def)
  have "goInt (int k) = int k" if "k \<in> set (filter ?P [0..<m])" for k
  proof -
    from that m assms(2) have "int k < 2 ^ 63" by auto
    then show ?thesis by (simp add: goInt_id)
  qed
  then have "map (\<lambda>k. goInt (int k)) (filter ?P [0..<m]) = map int (filter ?P [0..<m])"
    by (intro map_cong) simp_all
  with ids have eq: "?ids = map int (filter ?P [0..<m])" by simp
  have "sorted_wrt (<) (filter ?P [0..<m])"
    by (intro sorted_wrt_filter) simp
  then have s: "sorted_wrt (<) ?ids"
    by (simp add: eq sorted_wrt_map)
  then have "distinct ?ids"
    by (simp add: strict_sorted_iff)
  with s eq full show ?thesis by auto
qed

theorem ids_strictly_increasing_witness:
  "(\<forall>xs. mset (sort_key Timestamp xs) = mset xs)
   \<and> length (submissions
       [Submit 1 (mkOrder ''buy'' ''market'' 100 10),
        Submit 2 (mkOrder ''sell'' ''market'' 100 10),
        Match [(100, [100])],
        Submit 3 (mkOrder ''hold'' ''limit'' 100 10),
        Submit 4 (mkOrder ''buy'' ''gtc'' 98 90)]) \<le> 2 ^ 63
   \<and> run (sort_key Timestamp)
       [Submit 1 (mkOrder ''buy'' ''market'' 100 10),
        Submit 2 (mkOrder ''sell'' ''market'' 100 10),
        Match [(100, [100])],
        Submit 3 (mkOrder ''hold'' ''limit'' 100 10),
        Submit 4 (mkOrder ''buy'' ''gtc'' 98 90)] NewOrderBook
     = Inr \<lparr>Bids = [(98, [stamped 3 4 (mkOrder ''buy'' ''gtc'' 98 90)])], Asks = [],
            nextOrderID = 4, stopChan = Open\<rparr>
   \<and> assignedIds (sort_key Timestamp)
       [Submit 1 (mkOrder ''buy'' ''market'' 100 10),
        Submit 2 (mkOrder ''sell'' ''market'' 100 10),
        Match [(100, [100])],
        Submit 3 (mkOrder ''hold'' ''limit'' 100 10),
        Submit 4 (mkOrder ''buy'' ''gtc'' 98 90)] NewOrderBook = [0, 1, 3]
   \<and> sorted_wrt (<) (assignedIds (sort_key Timestamp)
       [Submit 1 (mkOrder ''buy'' ''market'' 100 10),
        Submit 2 (mkOrder ''sell'' ''market'' 100 10),
        Match [(100, [100])],
        Submit 3 (mkOrder ''hold'' ''limit'' 100 10),
        Submit 4 (mkOrder ''buy'' ''gtc'' 98 90)] NewOrderBook)"
proof -
  let ?cs = "[Submit 1 (mkOrder ''buy'' ''market'' 100 10),
              Submit 2 (mkOrder ''sell'' ''market'' 100 10),
              Match [(100, [100])],
              Submit 3 (mkOrder ''hold'' ''limit'' 100 10),
              Submit 4 (mkOrder ''buy'' ''gtc'' 98 90)]"
  let ?ob1 = "\<lparr>Bids = [(98, [stamped 3 4 (mkOrder ''buy'' ''gtc'' 98 90)])], Asks = [],
            nextOrderID = 4, stopChan = Open\<rparr>"
  have h1: "mset (sort_key Timestamp xs) = mset xs" for xs
    by simp
  have h2: "length (submissions ?cs) \<le> 2 ^ 63"
    by simp
  have r: "run (sort_key Timestamp) ?cs NewOrderBook = Inr ?ob1"
    by (simp add: evaluate)
  have ids: "assignedIds (sort_key Timestamp) ?cs NewOrderBook = [0, 1, 3]"
    by (simp add: evaluate added_def orders_def resting_def)
  from ids_strictly_increasing [of "sort_key Timestamp" ?cs ?ob1, OF h1 h2] h1 h2 r ids
  show ?thesis
    by simp
qed

lemma run_dropped:
  assumes "\<not> accepted order0"
    and "- (2 ^ 63) \<le> nextOrderID ob" and "nextOrderID ob < 2 ^ 63"
  shows "run sortSlice (replicate n (Submit now order0)) ob
       = Inr (ob\<lparr>nextOrderID := goInt (nextOrderID ob + int n)\<rparr>)"
  using assms(2,3)
proof (induction n arbitrary: ob)
  case 0
  then show ?case by (simp add: goInt_id)
next
  case (Suc n)
  let ?ob1 = "ob\<lparr>nextOrderID := goInt (nextOrderID ob + 1)\<rparr>"
  from goInt_range [of "nextOrderID ob + 1"]
  have "- (2 ^ 63) \<le> nextOrderID ?ob1" "nextOrderID ?ob1 < 2 ^ 63" by simp_all
  from Suc.IH [OF this] goInt_add [of "nextOrderID ob + 1" "int n"] assms(1) show ?case
    by (simp add: AddOrder_dropped algebra_simps)
qed

lemma assignedIds_dropped:
  assumes "\<And>xs. mset (sortSlice xs) = mset xs" and "\<not> accepted order0"
  shows "assignedIds sortSlice (replicate n (Submit now order0)) ob = []"
  using assms(2) by (induction n arbitrary: ob) (simp_all add: added_AddOrder [OF assms(1)])

lemma assignedIds_append:
  "run sortSlice cs ob = Inr ob1 \<Longrightarrow>
     assignedIds sortSlice (cs @ cs') ob
       = assignedIds sortSlice cs ob @ assignedIds sortSlice cs' ob1"
  by (induction cs arbitrary: ob) (auto split: sum.splits)

lemma ids_past_the_counter:
  assumes "int n = 2 ^ 63 - 1"
  shows "assignedIds (sort_key Timestamp)
     (replicate n (Submit 1 (mkOrder ''hold'' ''market'' 100 1))
      @ [Submit 2 (mkOrder ''buy'' ''gtc'' 100 1), Submit 3 (mkOrder ''buy'' ''gtc'' 100 1)])
     NewOrderBook = [2 ^ 63 - 1, - (2 ^ 63)]"
proof -
  let ?hold = "mkOrder ''hold'' ''market'' 100 1"
  let ?ob1 = "NewOrderBook\<lparr>nextOrderID := 2 ^ 63 - 1\<rparr>"
  have d: "\<not> accepted ?hold"
    by (simp add: accepted_def mkOrder_def)
  have p: "mset (sort_key Timestamp xs) = mset xs" for xs :: "Order list"
    by simp
  have "run (sort_key Timestamp) (replicate n (Submit 1 ?hold)) NewOrderBook
      = Inr (NewOrderBook\<lparr>nextOrderID := goInt (nextOrderID NewOrderBook + int n)\<rparr>)"
    by (rule run_dropped [OF d]) (simp_all add: NewOrderBook_def)
  also have "goInt (nextOrderID NewOrderBook + int n) = 2 ^ 63 - 1"
    by (simp add: assms NewOrderBook_def goInt_def)
  finally have r: "run (sort_key Timestamp) (replicate n (Submit 1 ?hold)) NewOrderBook
      = Inr ?ob1" .
  have t: "assignedIds (sort_key Timestamp)
      [Submit 2 (mkOrder ''buy'' ''gtc'' 100 1), Submit 3 (mkOrder ''buy'' ''gtc'' 100 1)] ?ob1
      = [2 ^ 63 - 1, - (2 ^ 63)]"
    by (simp add: evaluate added_def orders_def resting_def)
  show ?thesis
    unfolding assignedIds_append [OF r] assignedIds_dropped [OF p d] t by simp
qed

text \<open>
  C9, as the claim states it, fails past the range of the counter. On a new book,
  \<open>2 ^ 63 - 1\<close> submissions with an unknown side use up the ids below \<open>2 ^ 63 - 1\<close>
  and leave the book empty; the next two orders are stored with the ids \<open>2 ^ 63 - 1\<close>
  and \<open>- (2 ^ 63)\<close>: the later submission has the smaller id.
\<close>

theorem ids_wrap_after_2_63_submissions:
  "assignedIds (sort_key Timestamp)
     (replicate (2 ^ 63 - 1) (Submit 1 (mkOrder ''hold'' ''market'' 100 1))
      @ [Submit 2 (mkOrder ''buy'' ''gtc'' 100 1), Submit 3 (mkOrder ''buy'' ''gtc'' 100 1)])
     NewOrderBook = [2 ^ 63 - 1, - (2 ^ 63)]"
  by (rule ids_past_the_counter) simp

section \<open>Shutdown\<close>

lemma level_update_other [simp]: "p \<noteq> q \<Longrightarrow> level (AList.update q xs m) p = level m p"
  by (simp add: level_def update_conv')

lemma level_delete_other [simp]: "p \<noteq> q \<Longrightarrow> level (AList.delete q m) p = level m p"
  by (simp add: level_def delete_conv')


lemma level_Some: "map_of m p = Some xs \<Longrightarrow> level m p = xs"
  by (simp add: level_def)


lemma keepGTC_distinct: "distinct (map fst m) \<Longrightarrow> distinct (map fst (keepGTC ks m))"
  by (induction ks arbitrary: m)
    (auto simp: distinct_update distinct_delete Let_def split: option.splits)

lemma level_in_resting: "set (level m p) \<subseteq> set (resting m)"
proof (cases "map_of m p")
  case None
  then show ?thesis by (simp add: level_def)
next
  case (Some xs)
  then have "(p, xs) \<in> set m" by (rule map_of_SomeD)
  then have "set xs \<subseteq> set (resting m)"
    by (force simp: resting_def)
  with Some show ?thesis by (simp add: level_def)
qed








text \<open>
  C7, as the code has it. \<open>StopMatching\<close> begins with \<open>close(ob.stopChan)\<close> and
  nothing guards it: the first call on a book completes, and a call after a completed
  one panics ("close of closed channel") before it touches the book.
\<close>

theorem second_shutdown_panics:
  "(stopChan ob = Open \<longrightarrow> (\<exists>ob1. StopMatching bidKeys askKeys ob = Inr ob1))
   \<and> (StopMatching bidKeys askKeys ob = Inr ob1 \<longrightarrow>
        StopMatching bidKeys2 askKeys2 ob1 = Inl CloseOfClosedChannel)"
  by (auto simp: StopMatching_def split: if_splits)

theorem second_shutdown_panics_witness:
  "stopChan testBook = Open
   \<and> StopMatching [98, 99, 100] [100, 102, 101] testBook
       = Inr \<lparr>Bids = [(98, [stamped 8 9 (mkOrder ''buy'' ''gtc'' 98 90)])],
              Asks = [(102, [stamped 9 10 (mkOrder ''sell'' ''gtc'' 102 30)])],
              nextOrderID = 10, stopChan = Closed\<rparr>
   \<and> StopMatching [98] [102]
        \<lparr>Bids = [(98, [stamped 8 9 (mkOrder ''buy'' ''gtc'' 98 90)])],
         Asks = [(102, [stamped 9 10 (mkOrder ''sell'' ''gtc'' 102 30)])],
         nextOrderID = 10, stopChan = Closed\<rparr> = Inl CloseOfClosedChannel"
proof -
  have e: "StopMatching [98, 99, 100] [100, 102, 101] testBook
       = Inr \<lparr>Bids = [(98, [stamped 8 9 (mkOrder ''buy'' ''gtc'' 98 90)])],
              Asks = [(102, [stamped 9 10 (mkOrder ''sell'' ''gtc'' 102 30)])],
              nextOrderID = 10, stopChan = Closed\<rparr>"
    by (simp add: StopMatching_def testBook_def stamped_def mkOrder_def GetType_def)
  from second_shutdown_panics [of testBook "[98, 99, 100]" "[100, 102, 101]" _ "[98]" "[102]"] e
  show ?thesis
    by (simp add: testBook_def)
qed

text \<open>
  C7, as the claim states it, fails on the book of \<open>TestOrderBook\<close>: the second call
  is a panic, neither a no-op nor an error that is reported.
\<close>

theorem second_shutdown_counterexample:
  "StopMatching [98, 99, 100] [100, 102, 101] testBook
     = Inr \<lparr>Bids = [(98, [stamped 8 9 (mkOrder ''buy'' ''gtc'' 98 90)])],
            Asks = [(102, [stamped 9 10 (mkOrder ''sell'' ''gtc'' 102 30)])],
            nextOrderID = 10, stopChan = Closed\<rparr>
   \<and> StopMatching [98] [102]
        \<lparr>Bids = [(98, [stamped 8 9 (mkOrder ''buy'' ''gtc'' 98 90)])],
         Asks = [(102, [stamped 9 10 (mkOrder ''sell'' ''gtc'' 102 30)])],
         nextOrderID = 10, stopChan = Closed\<rparr> = Inl CloseOfClosedChannel"
  by (simp add: StopMatching_def testBook_def stamped_def mkOrder_def GetType_def)

section \<open>Rules for the loops\<close>

text \<open>
  One rule for each loop: an invariant \<open>I\<close> that every round keeps gives the
  postcondition \<open>R\<close> when the loop returns, and \<open>E\<close> holds of the panic and of what
  was printed when it does not.
\<close>

lemma jloop_rule:
  assumes "I i bid j st"
    and "\<And>i bid j st. I i bid j st \<Longrightarrow> j < int (asksLen st) \<Longrightarrow>
        (case pairStep bp ap i bid j st of
           Inl x \<Rightarrow> E x
         | Inr (Continue, i1, bid1, j1, st1) \<Rightarrow> I i1 bid1 (j1 + 1) st1
         | Inr (Break, i1, bid1, j1, st1) \<Rightarrow> R (i1, st1))"
    and "\<And>i bid j st. I i bid j st \<Longrightarrow> \<not> j < int (asksLen st) \<Longrightarrow> R (i, st)"
  shows "case jloop bp ap i bid j st of Inl x \<Rightarrow> E x | Inr y \<Rightarrow> R y"
  using assms
proof (induction bp ap i bid j st rule: jloop.induct)
  case (1 bp ap i bid j st)
  note inv = "1.prems"(1) and step = "1.prems"(2) and exit = "1.prems"(3)
  show ?case
  proof (cases "j < int (asksLen st)")
    case False
    with exit [OF inv] show ?thesis by (subst jloop.simps) simp
  next
    case True
    note s = step [OF inv True]
    show ?thesis
    proof (cases "pairStep bp ap i bid j st")
      case (Inl x)
      with s True show ?thesis by (subst jloop.simps) simp
    next
      case (Inr r)
      obtain f i1 bid1 j1 st1 where r: "r = (f, i1, bid1, j1, st1)"
        by (cases r) auto
      show ?thesis
      proof (cases f)
        case Break
        with s Inr r True show ?thesis by (subst jloop.simps) simp
      next
        case Continue
        with s Inr r have "I i1 bid1 (j1 + 1) st1" by simp
        then have "case jloop bp ap i1 bid1 (j1 + 1) st1 of Inl x \<Rightarrow> E x | Inr y \<Rightarrow> R y"
          using "1.IH" True Inr r Continue step exit by blast
        with True Inr r Continue show ?thesis by (subst jloop.simps) simp
      qed
    qed
  qed
qed

lemma iloop_rule:
  assumes "I i st"
    and "\<And>i st. I i st \<Longrightarrow> i < int (bidsLen st) \<Longrightarrow>
        (case index (bidsBuf st) (bidsLen st) i of
           Inl e \<Rightarrow> E (e, printed st)
         | Inr bid \<Rightarrow>
             (case jloop bp ap i bid 0 st of
                Inl x \<Rightarrow> E x
              | Inr (i1, st1) \<Rightarrow> I (i1 + 1) st1))"
    and "\<And>i st. I i st \<Longrightarrow> \<not> i < int (bidsLen st) \<Longrightarrow> R st"
  shows "case iloop bp ap i st of Inl x \<Rightarrow> E x | Inr st1 \<Rightarrow> R st1"
  using assms
proof (induction bp ap i st rule: iloop.induct)
  case (1 bp ap i st)
  note inv = "1.prems"(1) and step = "1.prems"(2) and exit = "1.prems"(3)
  show ?case
  proof (cases "i < int (bidsLen st)")
    case False
    with exit [OF inv] show ?thesis by (subst iloop.simps) simp
  next
    case True
    note s = step [OF inv True]
    show ?thesis
    proof (cases "index (bidsBuf st) (bidsLen st) i")
      case (Inl e)
      with s True show ?thesis by (subst iloop.simps) simp
    next
      case (Inr bid)
      show ?thesis
      proof (cases "jloop bp ap i bid 0 st")
        case l: (Inl x)
        with s Inr True show ?thesis by (subst iloop.simps) simp
      next
        case rr: (Inr r)
        obtain i1 st1 where r: "r = (i1, st1)" by (cases r) auto
        with s Inr rr have "I (i1 + 1) st1" by simp
        then have "case iloop bp ap (i1 + 1) st1 of Inl x \<Rightarrow> E x | Inr st1 \<Rightarrow> R st1"
          using "1.IH" True Inr rr r step exit by blast
        with True Inr rr r show ?thesis by (subst iloop.simps) simp
      qed
    qed
  qed
qed

lemma askLoop_rule:
  assumes "I st"
    and "\<And>ap st asks. I st \<Longrightarrow> map_of (obAsks st) ap = Some asks \<Longrightarrow> ap \<le> bp \<Longrightarrow>
        (case iloop bp ap 0 (st\<lparr>asksBuf := asks, asksLen := length asks\<rparr>) of
           Inl x \<Rightarrow> E x | Inr st1 \<Rightarrow> I st1)"
    and "\<And>ap st asks. I st \<Longrightarrow> map_of (obAsks st) ap = Some asks \<Longrightarrow> \<not> ap \<le> bp \<Longrightarrow>
        I (st\<lparr>asksBuf := asks, asksLen := length asks\<rparr>)"
  shows "case askLoop bp aks st of Inl x \<Rightarrow> E x | Inr st1 \<Rightarrow> I st1"
  using assms(1)
proof (induction aks arbitrary: st)
  case Nil
  then show ?case by simp
next
  case (Cons ap aks)
  show ?case
  proof (cases "map_of (obAsks st) ap")
    case None
    with Cons.IH [OF Cons.prems] show ?thesis by simp
  next
    case (Some asks)
    let ?st1 = "st\<lparr>asksBuf := asks, asksLen := length asks\<rparr>"
    show ?thesis
    proof (cases "ap \<le> bp")
      case False
      from assms(3) [OF Cons.prems Some False] have "I ?st1" .
      from Cons.IH [OF this] False Some show ?thesis by simp
    next
      case True
      note s = assms(2) [OF Cons.prems Some True]
      show ?thesis
      proof (cases "iloop bp ap 0 ?st1")
        case (Inl x)
        with s True Some show ?thesis by simp
      next
        case (Inr st2)
        with s have "I st2" by simp
        from Cons.IH [OF this] Inr True Some show ?thesis by simp
      qed
    qed
  qed
qed

lemma bidLoop_rule:
  assumes "I st"
    and "\<And>bp aks st bids. I st \<Longrightarrow> map_of (obBids st) bp = Some bids \<Longrightarrow>
        (case askLoop bp aks (st\<lparr>bidsBuf := bids, bidsLen := length bids\<rparr>) of
           Inl x \<Rightarrow> E x
         | Inr st1 \<Rightarrow>
             I (if \<not> matches st1 then st1\<lparr>printed := printed st1 @ [NoMatches]\<rparr> else st1))"
  shows "case bidLoop keys st of Inl x \<Rightarrow> E x | Inr st1 \<Rightarrow> I st1"
  using assms(1)
proof (induction keys arbitrary: st)
  case Nil
  then show ?case by simp
next
  case (Cons k keys)
  obtain bp aks where k: "k = (bp, aks)" by (cases k) auto
  show ?case
  proof (cases "map_of (obBids st) bp")
    case None
    with Cons.IH [OF Cons.prems] k show ?thesis by simp
  next
    case (Some bids)
    note s = assms(2) [OF Cons.prems Some, of aks]
    show ?thesis
    proof (cases "askLoop bp aks (st\<lparr>bidsBuf := bids, bidsLen := length bids\<rparr>)")
      case (Inl x)
      with s Some k show ?thesis by simp
    next
      case (Inr st1)
      with s have "I (if \<not> matches st1 then st1\<lparr>printed := printed st1 @ [NoMatches]\<rparr> else st1)"
        by simp
      from Cons.IH [OF this] Inr Some k show ?thesis by simp
    qed
  qed
qed

section \<open>What a pass keeps\<close>

text \<open>
  A pass only takes orders out of the slices and shifts them: every order in the book
  or in a backing array afterwards was there before, as it was. So a property of all
  resting orders survives every pass.
\<close>

lemma removeAt_set: "removeAt buf n k = Inr (buf', n') \<Longrightarrow> set buf' \<subseteq> set buf"
proof -
  assume "removeAt buf n k = Inr (buf', n')"
  then have b: "buf' = take (nat k) buf @ take (n - 1 - nat k) (drop (nat k + 1) buf)
       @ drop (n - 1) buf"
    by (auto simp: removeAt_def split: if_splits)
  have "set (take (n - 1 - nat k) (drop (nat k + 1) buf)) \<subseteq> set (drop (nat k + 1) buf)"
    by (rule set_take_subset)
  also have "\<dots> \<subseteq> set buf" by (rule set_drop_subset)
  finally have "set (take (n - 1 - nat k) (drop (nat k + 1) buf)) \<subseteq> set buf" .
  moreover have "set (take (nat k) buf) \<subseteq> set buf" by (rule set_take_subset)
  moreover have "set (drop (n - 1) buf) \<subseteq> set buf" by (rule set_drop_subset)
  ultimately show ?thesis unfolding b by simp
qed

lemma removeAt_all: "removeAt buf n k = Inr (buf', n') \<Longrightarrow> list_all P buf \<Longrightarrow> list_all P buf'"
  using removeAt_set [of buf n k buf' n'] by (auto simp: list_all_iff)

lemma take_all: "list_all P xs \<Longrightarrow> list_all P (take n xs)"
  by (auto simp: list_all_iff dest: in_set_takeD)

lemma resting_update:
  "list_all P xs \<Longrightarrow> list_all P (resting m) \<Longrightarrow> list_all P (resting (AList.update p xs m))"
  by (induction m) (auto simp: resting_def)

lemma resting_delete: "list_all P (resting m) \<Longrightarrow> list_all P (resting (AList.delete p m))"
  by (induction m) (auto simp: resting_def)

lemma resting_aliased:
  "list_all P buf \<Longrightarrow> list_all P (resting m) \<Longrightarrow> list_all P (resting (aliased p buf m))"
  by (auto simp: aliased_def resting_update take_all split: option.splits)

lemma resting_map_of:
  "map_of m p = Some xs \<Longrightarrow> list_all P (resting m) \<Longrightarrow> list_all P xs"
  using level_in_resting [of m p] by (auto simp: level_def list_all_iff)

lemma killFOK_stateAll:
  assumes "killFOK bp ap i bid ask j st = Inr (f, i', bid', j', st')" and "stateAll P st"
  shows "stateAll P st'"
proof (cases "FOK bid")
  case True
  with assms(1) obtain buf n where r: "removeAt (bidsBuf st) (bidsLen st) i = Inr (buf, n)"
    and st': "st' = st\<lparr>bidsBuf := buf, bidsLen := n, obBids := aliased bp buf (obBids st)\<rparr>"
    by (auto simp: killFOK_def split: sum.splits)
  from r assms(2) have "list_all P buf"
    by (auto simp: stateAll_def dest: removeAt_all)
  with assms(2) st' show ?thesis
    by (simp add: stateAll_def resting_aliased)
next
  case False
  with assms(1) obtain buf n where r: "removeAt (asksBuf st) (asksLen st) j = Inr (buf, n)"
    and st': "st' = st\<lparr>asksBuf := buf, asksLen := n, obAsks := aliased ap buf (obAsks st)\<rparr>"
    by (auto simp: killFOK_def split: sum.splits)
  from r assms(2) have "list_all P buf"
    by (auto simp: stateAll_def dest: removeAt_all)
  with assms(2) st' show ?thesis
    by (simp add: stateAll_def resting_aliased)
qed

lemma cleanAsk_stateAll:
  assumes "cleanAsk ap j st = Inr (j', st')" and "stateAll P st"
  shows "stateAll P st'"
proof -
  from assms(1) obtain buf n m
    where r: "removeAt (asksBuf st) (length (level (obAsks st) ap)) j = Inr (buf, n)"
    and st': "st' = st\<lparr>asksBuf := buf, obAsks := m\<rparr>"
    and m: "m = AList.delete ap (AList.update ap (take n buf) (obAsks st))
          \<or> m = AList.update ap (take n buf) (obAsks st)"
    by (auto simp: cleanAsk_def Let_def split: sum.splits if_splits)
  from r assms(2) have b: "list_all P buf"
    by (auto simp: stateAll_def dest: removeAt_all)
  with assms(2) have "list_all P (resting (AList.update ap (take n buf) (obAsks st)))"
    by (simp add: stateAll_def resting_update take_all)
  with m have "list_all P (resting m)"
    by (auto simp: resting_delete)
  with b assms(2) st' show ?thesis
    by (simp add: stateAll_def)
qed

lemma cleanBid_stateAll:
  assumes "cleanBid bp i st = Inr (i', st')" and "stateAll P st"
  shows "stateAll P st'"
proof -
  from assms(1) obtain buf n m
    where r: "removeAt (bidsBuf st) (bidsLen st) i = Inr (buf, n)"
    and st': "st' = st\<lparr>bidsBuf := buf, bidsLen := n, obBids := m\<rparr>"
    and m: "m = AList.delete bp (AList.update bp (take n buf) (obBids st))
          \<or> m = AList.update bp (take n buf) (obBids st)"
    by (auto simp: cleanBid_def Let_def split: sum.splits if_splits)
  from r assms(2) have b: "list_all P buf"
    by (auto simp: stateAll_def dest: removeAt_all)
  with assms(2) have "list_all P (resting (AList.update bp (take n buf) (obBids st)))"
    by (simp add: stateAll_def resting_update take_all)
  with m have "list_all P (resting m)"
    by (auto simp: resting_delete)
  with b assms(2) st' show ?thesis
    by (simp add: stateAll_def)
qed

lemma stateAll_printed [simp]:
  "stateAll P (st\<lparr>matches := b\<rparr>) = stateAll P st"
  "stateAll P (st\<lparr>printed := out\<rparr>) = stateAll P st"
  by (simp_all add: stateAll_def)

lemma fillPair_stateAll:
  assumes "fillPair bp ap i bid ask j vol st = Inr (f, i', bid', j', st')" and "stateAll P st"
  shows "stateAll P st'"
proof (cases "vol > 0")
  case False
  with assms show ?thesis by (simp add: fillPair_def)
next
  case True
  let ?st1 = "st\<lparr>matches := True,
                   printed := printed st @ [Fill ap vol (Id' bid) (Id' ask)]\<rparr>"
  let ?a = "if Size ask - vol = 0 then cleanAsk ap j ?st1 else Inr (j, ?st1)"
  from assms(2) have s1: "stateAll P ?st1" by simp
  from True assms(1) obtain j1 st2 where a: "?a = Inr (j1, st2)"
    by (cases ?a) (auto simp: fillPair_def Let_def)
  with s1 have s2: "stateAll P st2"
    by (auto split: if_splits dest: cleanAsk_stateAll)
  show ?thesis
  proof (cases "Size bid - vol = 0")
    case False
    with True a assms(1) have "st' = st2"
      by (simp add: fillPair_def Let_def)
    with s2 show ?thesis by simp
  next
    case z: True
    with True a assms(1) obtain i1 where "cleanBid bp i st2 = Inr (i1, st')"
      by (cases "cleanBid bp i st2") (auto simp: fillPair_def Let_def)
    with s2 show ?thesis by (auto dest: cleanBid_stateAll)
  qed
qed

lemma pairStep_stateAll:
  "pairStep bp ap i bid j st = Inr (f, i', bid', j', st') \<Longrightarrow> stateAll P st \<Longrightarrow> stateAll P st'"
  by (auto simp: pairStep_def Let_def split: if_splits sum.splits
      dest: killFOK_stateAll fillPair_stateAll)

lemma jloop_stateAll:
  assumes "jloop bp ap i bid j st = Inr (i', st')" and "stateAll P st"
  shows "stateAll P st'"
proof -
  have "case jloop bp ap i bid j st of Inl x \<Rightarrow> True | Inr (i', st') \<Rightarrow> stateAll P st'"
  proof (rule jloop_rule [where I = "\<lambda>i bid j. stateAll P" and E = "\<lambda>x. True", OF assms(2)])
    fix i bid j st
    assume "stateAll P st"
    then show "case pairStep bp ap i bid j st of
         Inl x \<Rightarrow> True
       | Inr (Continue, i1, bid1, j1, st1) \<Rightarrow> stateAll P st1
       | Inr (Break, i1, bid1, j1, st1) \<Rightarrow> (case (i1, st1) of (i', st') \<Rightarrow> stateAll P st')"
      by (cases "pairStep bp ap i bid j st") (auto split: flow.splits dest: pairStep_stateAll)
  next
    fix i :: int and st
    assume "stateAll P st"
    then show "case (i, st) of (i', st') \<Rightarrow> stateAll P st'" by simp
  qed
  with assms(1) show ?thesis by simp
qed

lemma iloop_stateAll:
  assumes "iloop bp ap i st = Inr st'" and "stateAll P st"
  shows "stateAll P st'"
proof -
  have "case iloop bp ap i st of Inl x \<Rightarrow> True | Inr st' \<Rightarrow> stateAll P st'"
  proof (rule iloop_rule [where I = "\<lambda>i. stateAll P" and E = "\<lambda>x. True", OF assms(2)])
    fix i st
    assume "stateAll P st"
    then show "case index (bidsBuf st) (bidsLen st) i of
         Inl e \<Rightarrow> True
       | Inr bid \<Rightarrow>
           (case jloop bp ap i bid 0 st of Inl x \<Rightarrow> True | Inr (i1, st1) \<Rightarrow> stateAll P st1)"
      by (auto split: sum.splits dest: jloop_stateAll)
  qed
  with assms(1) show ?thesis by simp
qed

lemma stateAll_range:
  "map_of (obAsks st) ap = Some asks \<Longrightarrow> stateAll P st \<Longrightarrow>
     stateAll P (st\<lparr>asksBuf := asks, asksLen := length asks\<rparr>)"
  "map_of (obBids st) bp = Some bids \<Longrightarrow> stateAll P st \<Longrightarrow>
     stateAll P (st\<lparr>bidsBuf := bids, bidsLen := length bids\<rparr>)"
  by (auto simp: stateAll_def dest: resting_map_of)

lemma askLoop_stateAll:
  assumes "askLoop bp aks st = Inr st'" and "stateAll P st"
  shows "stateAll P st'"
proof -
  have "case askLoop bp aks st of Inl x \<Rightarrow> True | Inr st' \<Rightarrow> stateAll P st'"
  proof (rule askLoop_rule [where I = "stateAll P" and E = "\<lambda>x. True", OF assms(2)])
    fix ap st asks
    assume "stateAll P st" and "map_of (obAsks st) ap = Some asks"
    then have s1: "stateAll P (st\<lparr>asksBuf := asks, asksLen := length asks\<rparr>)"
      by (auto dest: stateAll_range)
    then show "stateAll P (st\<lparr>asksBuf := asks, asksLen := length asks\<rparr>)" .
    from s1 show "case iloop bp ap 0 (st\<lparr>asksBuf := asks, asksLen := length asks\<rparr>) of
         Inl x \<Rightarrow> True | Inr st1 \<Rightarrow> stateAll P st1"
      by (auto split: sum.splits dest: iloop_stateAll)
  qed
  with assms(1) show ?thesis by simp
qed

lemma bidLoop_stateAll:
  assumes "bidLoop keys st = Inr st'" and "stateAll P st"
  shows "stateAll P st'"
proof -
  have "case bidLoop keys st of Inl x \<Rightarrow> True | Inr st' \<Rightarrow> stateAll P st'"
  proof (rule bidLoop_rule [where I = "stateAll P" and E = "\<lambda>x. True", OF assms(2)])
    fix bp aks st bids
    assume "stateAll P st" and "map_of (obBids st) bp = Some bids"
    then have "stateAll P (st\<lparr>bidsBuf := bids, bidsLen := length bids\<rparr>)"
      by (auto dest: stateAll_range)
    then show "case askLoop bp aks (st\<lparr>bidsBuf := bids, bidsLen := length bids\<rparr>) of
         Inl x \<Rightarrow> True
       | Inr st1 \<Rightarrow>
           stateAll P (if \<not> matches st1 then st1\<lparr>printed := printed st1 @ [NoMatches]\<rparr>
                       else st1)"
      by (auto split: sum.splits dest: askLoop_stateAll)
  qed
  with assms(1) show ?thesis by simp
qed

lemma MatchOrders_bookAll:
  "MatchOrders keys ob = Inr (ob1, out) \<Longrightarrow> bookAll P ob \<Longrightarrow> bookAll P ob1"
  by (auto simp: MatchOrders_def bookAll_def stateAll_def split: if_splits sum.splits
      dest!: bidLoop_stateAll [where P = P])

lemma keepGTC_all: "list_all P (resting m) \<Longrightarrow> list_all P (resting (keepGTC ks m))"
proof (induction ks arbitrary: m)
  case Nil
  then show ?case by simp
next
  case (Cons k ks)
  show ?case
  proof (cases "map_of m k")
    case None
    with Cons show ?thesis by simp
  next
    case (Some bids)
    with Cons.prems have "list_all P (filter GTC bids)"
      by (auto dest!: resting_map_of [where P = P] simp: list_all_iff)
    with Some Cons show ?thesis
      by (auto simp: resting_update resting_delete Let_def)
  qed
qed

lemma StopMatching_bookAll:
  "StopMatching bk ak ob = Inr ob1 \<Longrightarrow> bookAll P ob \<Longrightarrow> bookAll P ob1"
  by (auto simp: StopMatching_def bookAll_def keepGTC_all split: if_splits)

lemma level_all: "list_all P (resting m) \<Longrightarrow> list_all P (level m p)"
  using level_in_resting [of m p] by (auto simp: list_all_iff)

lemma AddOrder_bookAll:
  assumes "\<And>xs. set (sortSlice xs) = set xs"
    and "bookAll P ob" and "P (stamped (nextOrderID ob) now order0)"
  shows "bookAll P (AddOrder sortSlice now order0 ob)"
proof -
  have srt: "list_all P (sortSlice xs) = list_all P xs" for xs
    by (simp add: list_all_iff assms(1))
  show ?thesis
    using assms(2,3)
    by (auto simp: AddOrder_def Let_def bookAll_def srt level_all stamped_def
        intro!: resting_update)
qed

lemma run_bookAll:
  assumes "\<And>xs. set (sortSlice xs) = set xs"
    and "list_all (\<lambda>x. \<forall>n now. P (stamped n now x)) (submissions cs)"
    and "bookAll P ob" and "run sortSlice cs ob = Inr ob1"
  shows "bookAll P ob1"
  using assms(2-)
proof (induction cs arbitrary: ob)
  case Nil
  then show ?case by simp
next
  case (Cons c cs)
  from Cons.prems(3) obtain ob2 where e: "exec sortSlice c ob = Inr ob2"
    and r: "run sortSlice cs ob2 = Inr ob1"
    by (auto split: sum.splits)
  have "bookAll P ob2 \<and> list_all (\<lambda>x. \<forall>n now. P (stamped n now x)) (submissions cs)"
  proof (cases c)
    case (Submit now order0)
    with Cons.prems(1) have "P (stamped (nextOrderID ob) now order0)"
      and "list_all (\<lambda>x. \<forall>n now. P (stamped n now x)) (submissions cs)"
      by simp_all
    with e Submit Cons.prems(2) assms(1) show ?thesis
      by (auto intro: AddOrder_bookAll)
  next
    case (Match keys)
    with e Cons.prems(1,2) show ?thesis
      by (auto split: sum.splits dest: MatchOrders_bookAll)
  next
    case (Stop bidKeys askKeys)
    with e Cons.prems(1,2) show ?thesis
      by (auto dest: StopMatching_bookAll)
  qed
  with r show ?case
    by (auto intro: Cons.IH)
qed

text \<open>
  The flags of the resting orders follow their type on every book that a run builds
  from orders submitted with the flags unset, as all callers submit them.
\<close>

lemma run_flags:
  assumes "\<And>xs. set (sortSlice xs) = set xs"
    and "list_all (\<lambda>x. \<not> GTC x \<and> \<not> FOK x) (submissions cs)"
    and "run sortSlice cs NewOrderBook = Inr ob"
  shows "bookAll (\<lambda>x. (GTC x \<longleftrightarrow> OrderType x = 3) \<and> (FOK x \<longleftrightarrow> OrderType x = 4)) ob"
proof (rule run_bookAll [OF assms(1) _ _ assms(3)])
  show "bookAll (\<lambda>x. (GTC x \<longleftrightarrow> OrderType x = 3) \<and> (FOK x \<longleftrightarrow> OrderType x = 4))
      NewOrderBook"
    by (simp add: bookAll_def NewOrderBook_def resting_def)
  from assms(2)
  show "list_all (\<lambda>x. \<forall>n now. (GTC (stamped n now x) \<longleftrightarrow> OrderType (stamped n now x) = 3)
      \<and> (FOK (stamped n now x) \<longleftrightarrow> OrderType (stamped n now x) = 4)) (submissions cs)"
    by (auto simp: list_all_iff stamped_def)
qed

lemma testBook_run:
  "run (sort_key Timestamp)
     [Submit 1 (mkOrder ''buy'' ''market'' 100 10), Submit 2 (mkOrder ''sell'' ''market'' 100 10),
      Match [(100, [100])],
      Submit 3 (mkOrder ''buy'' ''market'' 99 10), Submit 4 (mkOrder ''sell'' ''market'' 101 10),
      Match [(99, [101])],
      Submit 5 (mkOrder ''buy'' ''fok'' 100 10), Submit 6 (mkOrder ''sell'' ''fok'' 100 10),
      Match [(99, [101, 100]), (100, [100, 101])],
      Submit 7 (mkOrder ''buy'' ''fok'' 100 5), Submit 8 (mkOrder ''sell'' ''fok'' 100 10),
      Match [(100, [101, 100]), (99, [100, 101])],
      Submit 9 (mkOrder ''buy'' ''gtc'' 98 90), Submit 10 (mkOrder ''sell'' ''gtc'' 102 30),
      Match [(98, [102, 100, 101]), (100, [101, 102, 100]), (99, [100, 101, 102])]]
     NewOrderBook = Inr testBook"
  by (simp add: evaluate testBook_def)

text \<open>
  C8. On every book that a run reaches from the new book, by submissions of orders of
  positive size, matching passes (and shutdown) in any order and with any iteration
  order of the maps, every resting order has a positive size. A run that panics
  reaches no book: the process ends.
\<close>

theorem resting_sizes_positive:
  assumes "\<And>xs. set (sortSlice xs) = set xs"
    and "list_all (\<lambda>x. 0 < Size x) (submissions cs)"
    and "run sortSlice cs NewOrderBook = Inr ob"
  shows "bookAll (\<lambda>x. 0 < Size x) ob"
proof (rule run_bookAll [OF assms(1) _ _ assms(3)])
  show "bookAll (\<lambda>x. 0 < Size x) NewOrderBook"
    by (simp add: bookAll_def NewOrderBook_def resting_def)
  from assms(2) show "list_all (\<lambda>x. \<forall>n now. 0 < Size (stamped n now x)) (submissions cs)"
    by (simp add: stamped_def)
qed

theorem resting_sizes_positive_witness:
  "(\<forall>xs. set (sort_key Timestamp xs) = set xs)
   \<and> list_all (\<lambda>x. 0 < Size x) (submissions
     [Submit 1 (mkOrder ''buy'' ''market'' 100 10), Submit 2 (mkOrder ''sell'' ''market'' 100 10),
      Match [(100, [100])],
      Submit 3 (mkOrder ''buy'' ''market'' 99 10), Submit 4 (mkOrder ''sell'' ''market'' 101 10),
      Match [(99, [101])],
      Submit 5 (mkOrder ''buy'' ''fok'' 100 10), Submit 6 (mkOrder ''sell'' ''fok'' 100 10),
      Match [(99, [101, 100]), (100, [100, 101])],
      Submit 7 (mkOrder ''buy'' ''fok'' 100 5), Submit 8 (mkOrder ''sell'' ''fok'' 100 10),
      Match [(100, [101, 100]), (99, [100, 101])],
      Submit 9 (mkOrder ''buy'' ''gtc'' 98 90), Submit 10 (mkOrder ''sell'' ''gtc'' 102 30),
      Match [(98, [102, 100, 101]), (100, [101, 102, 100]), (99, [100, 101, 102])]])
   \<and> bookAll (\<lambda>x. 0 < Size x) testBook"
proof -
  let ?cs = "[Submit 1 (mkOrder ''buy'' ''market'' 100 10), Submit 2 (mkOrder ''sell'' ''market'' 100 10),
      Match [(100, [100])],
      Submit 3 (mkOrder ''buy'' ''market'' 99 10), Submit 4 (mkOrder ''sell'' ''market'' 101 10),
      Match [(99, [101])],
      Submit 5 (mkOrder ''buy'' ''fok'' 100 10), Submit 6 (mkOrder ''sell'' ''fok'' 100 10),
      Match [(99, [101, 100]), (100, [100, 101])],
      Submit 7 (mkOrder ''buy'' ''fok'' 100 5), Submit 8 (mkOrder ''sell'' ''fok'' 100 10),
      Match [(100, [101, 100]), (99, [100, 101])],
      Submit 9 (mkOrder ''buy'' ''gtc'' 98 90), Submit 10 (mkOrder ''sell'' ''gtc'' 102 30),
      Match [(98, [102, 100, 101]), (100, [101, 102, 100]), (99, [100, 101, 102])]]"
  have h1: "set (sort_key Timestamp xs) = set xs" for xs
    by simp
  have h2: "list_all (\<lambda>x. 0 < Size x) (submissions ?cs)"
    by (simp add: mkOrder_def)
  from resting_sizes_positive [of "sort_key Timestamp" ?cs testBook, OF h1 h2 testBook_run] h1 h2
  show ?thesis
    by simp
qed

section \<open>The keys of a side\<close>

text \<open>
  A side is a Go map, in which a key occurs once. The association lists of a book keep
  this along every run: it is what the statement on shutdown asks of the book.
\<close>

lemma aliased_distinct: "distinct (map fst m) \<Longrightarrow> distinct (map fst (aliased p buf m))"
  by (simp add: aliased_def distinct_update split: option.splits)

lemma pairStep_distinct:
  assumes "distinct (map fst (obBids st)) \<and> distinct (map fst (obAsks st))"
    and "pairStep bp ap i bid j st = Inr (f, i', bid', j', st')"
  shows "distinct (map fst (obBids st')) \<and> distinct (map fst (obAsks st'))"
  using assms
  by (auto simp: pairStep_def killFOK_def fillPair_def cleanAsk_def cleanBid_def Let_def
      aliased_distinct distinct_update distinct_delete
      split: sum.splits if_splits prod.splits)

lemma jloop_distinct:
  assumes "distinct (map fst (obBids st)) \<and> distinct (map fst (obAsks st))"
  shows "case jloop bp ap i bid j st of
           Inl x \<Rightarrow> True
         | Inr (i', st') \<Rightarrow> distinct (map fst (obBids st')) \<and> distinct (map fst (obAsks st'))"
proof (rule jloop_rule [where I = "\<lambda>i bid j st.
    distinct (map fst (obBids st)) \<and> distinct (map fst (obAsks st))"])
  show "distinct (map fst (obBids st)) \<and> distinct (map fst (obAsks st))" by (rule assms)
next
  fix i bid j and st :: matchState
  assume d: "distinct (map fst (obBids st)) \<and> distinct (map fst (obAsks st))"
  show "case pairStep bp ap i bid j st of
       Inl x \<Rightarrow> True
     | Inr (Continue, i1, bid1, j1, st1) \<Rightarrow>
         distinct (map fst (obBids st1)) \<and> distinct (map fst (obAsks st1))
     | Inr (Break, i1, bid1, j1, st1) \<Rightarrow>
         (case (i1, st1) of (i', st') \<Rightarrow>
            distinct (map fst (obBids st')) \<and> distinct (map fst (obAsks st')))"
  proof (cases "pairStep bp ap i bid j st")
    case (Inl x)
    then show ?thesis by simp
  next
    case (Inr r)
    obtain f i1 bid1 j1 st1 where r: "r = (f, i1, bid1, j1, st1)"
      by (cases r) auto
    from pairStep_distinct [OF d] Inr r
    have "distinct (map fst (obBids st1)) \<and> distinct (map fst (obAsks st1))"
      by simp
    with Inr r show ?thesis by (cases f) simp_all
  qed
next
  fix i :: int and bid :: Order and j :: int and st :: matchState
  assume "distinct (map fst (obBids st)) \<and> distinct (map fst (obAsks st))"
  then show "case (i, st) of (i', st') \<Rightarrow>
      distinct (map fst (obBids st')) \<and> distinct (map fst (obAsks st'))"
    by simp
qed

lemma iloop_distinct:
  assumes "distinct (map fst (obBids st)) \<and> distinct (map fst (obAsks st))"
  shows "case iloop bp ap i st of
           Inl x \<Rightarrow> True
         | Inr st' \<Rightarrow> distinct (map fst (obBids st')) \<and> distinct (map fst (obAsks st'))"
proof (rule iloop_rule [where I = "\<lambda>i st.
    distinct (map fst (obBids st)) \<and> distinct (map fst (obAsks st))"])
  show "distinct (map fst (obBids st)) \<and> distinct (map fst (obAsks st))" by (rule assms)
next
  fix i and st :: matchState
  assume d: "distinct (map fst (obBids st)) \<and> distinct (map fst (obAsks st))"
  show "case index (bidsBuf st) (bidsLen st) i of
       Inl e \<Rightarrow> True
     | Inr bid \<Rightarrow>
         (case jloop bp ap i bid 0 st of
            Inl x \<Rightarrow> True
          | Inr (i1, st1) \<Rightarrow> distinct (map fst (obBids st1)) \<and> distinct (map fst (obAsks st1)))"
  proof (cases "index (bidsBuf st) (bidsLen st) i")
    case (Inl e)
    then show ?thesis by simp
  next
    case (Inr bid)
    with jloop_distinct [OF d, of bp ap i bid 0] show ?thesis by simp
  qed
next
  fix i :: int and st :: matchState
  assume "distinct (map fst (obBids st)) \<and> distinct (map fst (obAsks st))"
  then show "distinct (map fst (obBids st)) \<and> distinct (map fst (obAsks st))" .
qed

lemma askLoop_distinct:
  assumes "distinct (map fst (obBids st)) \<and> distinct (map fst (obAsks st))"
  shows "case askLoop bp aks st of
           Inl x \<Rightarrow> True
         | Inr st' \<Rightarrow> distinct (map fst (obBids st')) \<and> distinct (map fst (obAsks st'))"
proof (rule askLoop_rule [where I = "\<lambda>st.
    distinct (map fst (obBids st)) \<and> distinct (map fst (obAsks st))"])
  show "distinct (map fst (obBids st)) \<and> distinct (map fst (obAsks st))" by (rule assms)
next
  fix ap asks and st :: matchState
  assume d: "distinct (map fst (obBids st)) \<and> distinct (map fst (obAsks st))"
  then have "distinct (map fst (obBids (st\<lparr>asksBuf := asks, asksLen := length asks\<rparr>)))
      \<and> distinct (map fst (obAsks (st\<lparr>asksBuf := asks, asksLen := length asks\<rparr>)))"
    by simp
  then show "case iloop bp ap 0 (st\<lparr>asksBuf := asks, asksLen := length asks\<rparr>) of
       Inl x \<Rightarrow> True
     | Inr st1 \<Rightarrow> distinct (map fst (obBids st1)) \<and> distinct (map fst (obAsks st1))"
    by (rule iloop_distinct)
  from d show "distinct (map fst (obBids (st\<lparr>asksBuf := asks, asksLen := length asks\<rparr>)))
      \<and> distinct (map fst (obAsks (st\<lparr>asksBuf := asks, asksLen := length asks\<rparr>)))"
    by simp
qed

lemma bidLoop_distinct:
  assumes "distinct (map fst (obBids st)) \<and> distinct (map fst (obAsks st))"
  shows "case bidLoop keys st of
           Inl x \<Rightarrow> True
         | Inr st' \<Rightarrow> distinct (map fst (obBids st')) \<and> distinct (map fst (obAsks st'))"
proof (rule bidLoop_rule [where I = "\<lambda>st.
    distinct (map fst (obBids st)) \<and> distinct (map fst (obAsks st))"])
  show "distinct (map fst (obBids st)) \<and> distinct (map fst (obAsks st))" by (rule assms)
next
  fix bp aks bids and st :: matchState
  assume d: "distinct (map fst (obBids st)) \<and> distinct (map fst (obAsks st))"
  then have "distinct (map fst (obBids (st\<lparr>bidsBuf := bids, bidsLen := length bids\<rparr>)))
      \<and> distinct (map fst (obAsks (st\<lparr>bidsBuf := bids, bidsLen := length bids\<rparr>)))"
    by simp
  from askLoop_distinct [OF this, of bp aks]
  show "case askLoop bp aks (st\<lparr>bidsBuf := bids, bidsLen := length bids\<rparr>) of
       Inl x \<Rightarrow> True
     | Inr st1 \<Rightarrow>
         distinct (map fst (obBids
            (if \<not> matches st1 then st1\<lparr>printed := printed st1 @ [NoMatches]\<rparr> else st1)))
         \<and> distinct (map fst (obAsks
            (if \<not> matches st1 then st1\<lparr>printed := printed st1 @ [NoMatches]\<rparr> else st1)))"
    by (auto split: sum.splits)
qed

lemma MatchOrders_distinct:
  assumes "distinct (map fst (Bids ob)) \<and> distinct (map fst (Asks ob))"
    and "MatchOrders keys ob = Inr (ob1, out)"
  shows "distinct (map fst (Bids ob1)) \<and> distinct (map fst (Asks ob1))"
proof (cases "length (Bids ob) = 0 \<or> length (Asks ob) = 0")
  case True
  with assms show ?thesis by (simp add: MatchOrders_def)
next
  case False
  let ?st = "\<lparr>obBids = Bids ob, obAsks = Asks ob, bidsBuf = [], bidsLen = 0,
                 asksBuf = [], asksLen = 0, matches = False, printed = []\<rparr>"
  from assms(1) have "distinct (map fst (obBids ?st)) \<and> distinct (map fst (obAsks ?st))"
    by simp
  from bidLoop_distinct [OF this, of keys] False assms(2) show ?thesis
    by (auto simp: MatchOrders_def split: sum.splits)
qed

lemma AddOrder_distinct:
  "distinct (map fst (Bids ob)) \<and> distinct (map fst (Asks ob)) \<Longrightarrow>
     distinct (map fst (Bids (AddOrder sortSlice now order0 ob)))
     \<and> distinct (map fst (Asks (AddOrder sortSlice now order0 ob)))"
  by (simp add: AddOrder_def Let_def distinct_update)

lemma exec_distinct:
  assumes "distinct (map fst (Bids ob)) \<and> distinct (map fst (Asks ob))"
    and "exec sortSlice c ob = Inr ob1"
  shows "distinct (map fst (Bids ob1)) \<and> distinct (map fst (Asks ob1))"
proof (cases c)
  case (Submit now order0)
  with assms AddOrder_distinct [of ob sortSlice now order0] show ?thesis by auto
next
  case (Match keys)
  with assms(2) obtain out where "MatchOrders keys ob = Inr (ob1, out)"
    by (auto split: sum.splits)
  with assms(1) show ?thesis by (rule MatchOrders_distinct)
next
  case (Stop bk ak)
  with assms show ?thesis
    by (auto simp: StopMatching_def keepGTC_distinct split: if_splits)
qed

lemma run_distinct_from:
  assumes "distinct (map fst (Bids ob)) \<and> distinct (map fst (Asks ob))"
    and "run sortSlice cs ob = Inr ob1"
  shows "distinct (map fst (Bids ob1)) \<and> distinct (map fst (Asks ob1))"
  using assms
proof (induction cs arbitrary: ob)
  case Nil
  then show ?case by simp
next
  case (Cons c cs)
  from Cons.prems(2) obtain ob' where e: "exec sortSlice c ob = Inr ob'"
    and r: "run sortSlice cs ob' = Inr ob1"
    by (auto split: sum.splits)
  from exec_distinct [OF Cons.prems(1) e] r show ?case
    by (rule Cons.IH)
qed

lemma run_distinct:
  "run sortSlice cs NewOrderBook = Inr ob \<Longrightarrow>
     distinct (map fst (Bids ob)) \<and> distinct (map fst (Asks ob))"
  by (rule run_distinct_from [of NewOrderBook]) (simp_all add: NewOrderBook_def)

section \<open>What a pass prints\<close>

lemma min_is_a_size: "(min a b \<noteq> a \<and> min a b \<noteq> (b::int)) = False"
  by (auto simp: min_def)

lemma cleanAsk_printed:
  "(case cleanAsk ap j st of Inl (e, out) \<Rightarrow> out | Inr (j', st') \<Rightarrow> printed st') = printed st"
  by (simp add: cleanAsk_def Let_def split: sum.splits prod.splits)

lemma cleanBid_printed:
  "(case cleanBid bp i st of Inl (e, out) \<Rightarrow> out | Inr (i', st') \<Rightarrow> printed st') = printed st"
  by (simp add: cleanBid_def Let_def split: sum.splits prod.splits)

lemma fillPair_printed:
  "printedBy (fillPair bp ap i bid ask j vol st)
     = printed st @ (if 0 < vol then [Fill ap vol (Id' bid) (Id' ask)] else [])"
proof (cases "0 < vol")
  case False
  then show ?thesis by (simp add: fillPair_def printedBy_def)
next
  case True
  let ?st1 = "st\<lparr>matches := True, printed := printed st @ [Fill ap vol (Id' bid) (Id' ask)]\<rparr>"
  show ?thesis
  proof (cases "Size ask - vol = 0")
    case False
    with True cleanBid_printed [of bp i ?st1] show ?thesis
      by (auto simp: fillPair_def printedBy_def Let_def split: sum.splits)
  next
    case z: True
    show ?thesis
    proof (cases "cleanAsk ap j ?st1")
      case (Inl e)
      with True z cleanAsk_printed [of ap j ?st1] show ?thesis
        by (auto simp: fillPair_def printedBy_def Let_def split: sum.splits)
    next
      case (Inr r)
      obtain j1 st2 where r: "r = (j1, st2)" by (cases r) auto
      with Inr cleanAsk_printed [of ap j ?st1] have "printed st2 = printed ?st1" by simp
      with True z Inr r cleanBid_printed [of bp i st2] show ?thesis
        by (auto simp: fillPair_def printedBy_def Let_def split: sum.splits)
    qed
  qed
qed

lemma pairStep_printed:
  assumes "index (asksBuf st) (asksLen st) i = Inr ask"
  shows "printedBy (pairStep bidPrice askPrice i bid j st)
       = printed st
         @ (if (OrderType bid = 1 \<or> OrderType ask = 1) \<and> 0 < min (Size bid) (Size ask)
            then [Fill askPrice (min (Size bid) (Size ask)) (Id' bid) (Id' ask)] else [])"
  using assms
  by (simp add: pairStep_def Let_def min_is_a_size fillPair_printed)
    (simp add: printedBy_def)

lemma pairStep_printed_panic:
  "index (asksBuf st) (asksLen st) i = Inl e \<Longrightarrow>
     printedBy (pairStep bidPrice askPrice i bid j st) = printed st"
  by (simp add: pairStep_def printedBy_def)

lemma index_mem: "index buf n k = Inr x \<Longrightarrow> x \<in> set buf"
proof -
  assume "index buf n k = Inr x"
  then have "nat k < length buf" and "x = buf ! nat k"
    by (auto simp: index_def split: if_splits)
  then show ?thesis by simp
qed

text \<open>
  A book without a market order: the pass prints no fill and leaves the book as it was,
  for every iteration order, or it panics on \<open>asks[i]\<close> (a bid level longer than a
  crossing ask level) having printed no fill.
\<close>

lemma index_cases:
  "index buf n k = Inl IndexOutOfRange \<or> (\<exists>x. index buf n k = Inr x)"
  by (simp add: index_def)

lemma pairStep_no_market:
  assumes "OrderType bid \<noteq> 1" and "list_all (\<lambda>x. OrderType x \<noteq> 1) (asksBuf st)"
  shows "pairStep bp ap i bid j st = Inr (Continue, i, bid, j, st)
       \<or> pairStep bp ap i bid j st = Inl (IndexOutOfRange, printed st)"
proof -
  from index_cases [of "asksBuf st" "asksLen st" i] show ?thesis
  proof
    assume "index (asksBuf st) (asksLen st) i = Inl IndexOutOfRange"
    then show ?thesis by (simp add: pairStep_def)
  next
    assume "\<exists>x. index (asksBuf st) (asksLen st) i = Inr x"
    then obtain ask where a: "index (asksBuf st) (asksLen st) i = Inr ask" ..
    with assms(2) have "OrderType ask \<noteq> 1"
      by (auto simp: list_all_iff dest: index_mem)
    with a assms(1) show ?thesis by (simp add: pairStep_def)
  qed
qed

lemma jloop_no_market:
  assumes "OrderType bid \<noteq> 1" and "list_all (\<lambda>x. OrderType x \<noteq> 1) (asksBuf st)"
  shows "jloop bp ap i bid j st = Inr (i, st)
       \<or> jloop bp ap i bid j st = Inl (IndexOutOfRange, printed st)"
proof -
  have "case jloop bp ap i bid j st of
          Inl x \<Rightarrow> x = (IndexOutOfRange, printed st) | Inr y \<Rightarrow> y = (i, st)"
  proof (rule jloop_rule [where I = "\<lambda>i' bid' j' st'. i' = i \<and> bid' = bid \<and> st' = st"])
    show "i = i \<and> bid = bid \<and> st = st" by simp
  next
    fix i' bid' j' st'
    assume "i' = i \<and> bid' = bid \<and> st' = st"
    with pairStep_no_market [OF assms, of bp ap i j']
    show "case pairStep bp ap i' bid' j' st' of
         Inl x \<Rightarrow> x = (IndexOutOfRange, printed st)
       | Inr (Continue, i1, bid1, j1, st1) \<Rightarrow> i1 = i \<and> bid1 = bid \<and> st1 = st
       | Inr (Break, i1, bid1, j1, st1) \<Rightarrow> (i1, st1) = (i, st)"
      by auto
  next
    fix i' bid' j' st'
    assume "i' = i \<and> bid' = bid \<and> st' = st"
    then show "(i', st') = (i, st)" by simp
  qed
  then show ?thesis by (cases "jloop bp ap i bid j st") simp_all
qed

lemma iloop_no_market:
  assumes "list_all (\<lambda>x. OrderType x \<noteq> 1) (bidsBuf st)"
    and "list_all (\<lambda>x. OrderType x \<noteq> 1) (asksBuf st)"
  shows "iloop bp ap i st = Inr st \<or> iloop bp ap i st = Inl (IndexOutOfRange, printed st)"
proof -
  have "case iloop bp ap i st of
          Inl x \<Rightarrow> x = (IndexOutOfRange, printed st) | Inr st1 \<Rightarrow> st1 = st"
  proof (rule iloop_rule [where I = "\<lambda>i' st'. st' = st"])
    show "st = st" ..
  next
    fix i' st'
    assume st': "st' = st"
    show "case index (bidsBuf st') (bidsLen st') i' of
         Inl e \<Rightarrow> (e, printed st') = (IndexOutOfRange, printed st)
       | Inr bid \<Rightarrow>
           (case jloop bp ap i' bid 0 st' of
              Inl x \<Rightarrow> x = (IndexOutOfRange, printed st)
            | Inr (i1, st1) \<Rightarrow> st1 = st)"
    proof (cases "index (bidsBuf st') (bidsLen st') i'")
      case (Inl e)
      with index_cases [of "bidsBuf st'" "bidsLen st'" i'] st' show ?thesis by simp
    next
      case (Inr bid)
      with assms(1) st' have "OrderType bid \<noteq> 1"
        by (auto simp: list_all_iff dest: index_mem)
      from jloop_no_market [OF this assms(2), of bp ap i' 0] Inr st' show ?thesis
        by auto
    qed
  next
    fix i' :: int and st'
    assume "st' = st"
    then show "st' = st" .
  qed
  then show ?thesis by (cases "iloop bp ap i st") simp_all
qed

lemma askLoop_no_market:
  assumes "list_all (\<lambda>x. OrderType x \<noteq> 1) (bidsBuf st)"
    and "list_all (\<lambda>x. OrderType x \<noteq> 1) (resting (obAsks st))"
  shows "(\<exists>buf n. askLoop bp aks st = Inr (st\<lparr>asksBuf := buf, asksLen := n\<rparr>))
       \<or> askLoop bp aks st = Inl (IndexOutOfRange, printed st)"
proof -
  have "case askLoop bp aks st of
          Inl x \<Rightarrow> x = (IndexOutOfRange, printed st)
        | Inr st1 \<Rightarrow> (\<exists>buf n. st1 = st\<lparr>asksBuf := buf, asksLen := n\<rparr>)"
  proof (rule askLoop_rule [where I = "\<lambda>st1. \<exists>buf n. st1 = st\<lparr>asksBuf := buf, asksLen := n\<rparr>"])
    have "st = st\<lparr>asksBuf := asksBuf st, asksLen := asksLen st\<rparr>" by simp
    then show "\<exists>buf n. st = st\<lparr>asksBuf := buf, asksLen := n\<rparr>" by blast
  next
    fix ap st1 asks
    assume "\<exists>buf n. st1 = st\<lparr>asksBuf := buf, asksLen := n\<rparr>"
      and a: "map_of (obAsks st1) ap = Some asks"
    then obtain buf n where st1: "st1 = st\<lparr>asksBuf := buf, asksLen := n\<rparr>" by blast
    let ?st2 = "st1\<lparr>asksBuf := asks, asksLen := length asks\<rparr>"
    from st1 have eq: "?st2 = st\<lparr>asksBuf := asks, asksLen := length asks\<rparr>" by simp
    then have ex2: "\<exists>buf n. ?st2 = st\<lparr>asksBuf := buf, asksLen := n\<rparr>" by blast
    then show "\<exists>buf n. ?st2 = st\<lparr>asksBuf := buf, asksLen := n\<rparr>" .
    from a st1 assms(2) have "list_all (\<lambda>x. OrderType x \<noteq> 1) (asksBuf ?st2)"
      by (auto dest: resting_map_of)
    moreover from st1 assms(1) have "list_all (\<lambda>x. OrderType x \<noteq> 1) (bidsBuf ?st2)"
      by simp
    ultimately have "iloop bp ap 0 ?st2 = Inr ?st2
        \<or> iloop bp ap 0 ?st2 = Inl (IndexOutOfRange, printed ?st2)"
      by (intro iloop_no_market)
    then show "case iloop bp ap 0 ?st2 of
         Inl x \<Rightarrow> x = (IndexOutOfRange, printed st)
       | Inr st3 \<Rightarrow> (\<exists>buf n. st3 = st\<lparr>asksBuf := buf, asksLen := n\<rparr>)"
    proof
      assume "iloop bp ap 0 ?st2 = Inr ?st2"
      with ex2 show ?thesis by simp
    next
      assume "iloop bp ap 0 ?st2 = Inl (IndexOutOfRange, printed ?st2)"
      with st1 show ?thesis by simp
    qed
  qed
  then show ?thesis by (cases "askLoop bp aks st") auto
qed

lemma bidLoop_no_market:
  assumes "list_all (\<lambda>x. OrderType x \<noteq> 1) (resting (obBids st))"
    and "list_all (\<lambda>x. OrderType x \<noteq> 1) (resting (obAsks st))"
    and "\<not> matches st" and "list_all (\<lambda>e. e = NoMatches) (printed st)"
  shows "case bidLoop keys st of
           Inl (e, out) \<Rightarrow> e = IndexOutOfRange \<and> list_all (\<lambda>e. e = NoMatches) out
         | Inr st1 \<Rightarrow> obBids st1 = obBids st \<and> obAsks st1 = obAsks st
             \<and> list_all (\<lambda>e. e = NoMatches) (printed st1)"
proof -
  let ?I = "\<lambda>st1. obBids st1 = obBids st \<and> obAsks st1 = obAsks st \<and> \<not> matches st1
      \<and> list_all (\<lambda>e. e = NoMatches) (printed st1)"
  have "case bidLoop keys st of
          Inl x \<Rightarrow> (case x of (e, out) \<Rightarrow> e = IndexOutOfRange \<and> list_all (\<lambda>e. e = NoMatches) out)
        | Inr st1 \<Rightarrow> ?I st1"
  proof (rule bidLoop_rule [where I = ?I])
    from assms(3,4) show "?I st" by simp
  next
    fix bp aks bids and st1 :: matchState
    assume I: "?I st1" and b: "map_of (obBids st1) bp = Some bids"
    let ?st0 = "st1\<lparr>bidsBuf := bids, bidsLen := length bids\<rparr>"
    from I b assms(1) have "list_all (\<lambda>x. OrderType x \<noteq> 1) (bidsBuf ?st0)"
      by (auto dest: resting_map_of)
    moreover from I assms(2) have "list_all (\<lambda>x. OrderType x \<noteq> 1) (resting (obAsks ?st0))"
      by simp
    ultimately have "(\<exists>buf n. askLoop bp aks ?st0 = Inr (?st0\<lparr>asksBuf := buf, asksLen := n\<rparr>))
        \<or> askLoop bp aks ?st0 = Inl (IndexOutOfRange, printed ?st0)"
      by (rule askLoop_no_market)
    with I show "case askLoop bp aks ?st0 of
         Inl x \<Rightarrow> (case x of (e, out) \<Rightarrow> e = IndexOutOfRange \<and> list_all (\<lambda>e. e = NoMatches) out)
       | Inr st2 \<Rightarrow>
           ?I (if \<not> matches st2 then st2\<lparr>printed := printed st2 @ [NoMatches]\<rparr> else st2)"
      by auto
  qed
  then show ?thesis by (auto split: sum.splits)
qed

lemma no_market_no_trade:
  assumes "bookAll (\<lambda>x. OrderType x \<noteq> 1) ob"
  shows "\<exists>out. list_all (\<lambda>e. e = NoMatches) out
       \<and> (MatchOrders keys ob = Inr (ob, out) \<or> MatchOrders keys ob = Inl (IndexOutOfRange, out))"
proof (cases "length (Bids ob) = 0 \<or> length (Asks ob) = 0")
  case True
  then have "MatchOrders keys ob = Inr (ob, [])" by (simp add: MatchOrders_def)
  then show ?thesis by auto
next
  case False
  let ?st = "\<lparr>obBids = Bids ob, obAsks = Asks ob, bidsBuf = [], bidsLen = 0,
                 asksBuf = [], asksLen = 0, matches = False, printed = []\<rparr>"
  from assms have "case bidLoop keys ?st of
           Inl (e, out) \<Rightarrow> e = IndexOutOfRange \<and> list_all (\<lambda>e. e = NoMatches) out
         | Inr st1 \<Rightarrow> obBids st1 = obBids ?st \<and> obAsks st1 = obAsks ?st
             \<and> list_all (\<lambda>e. e = NoMatches) (printed st1)"
    by (intro bidLoop_no_market) (simp_all add: bookAll_def)
  with False show ?thesis
    by (auto simp: MatchOrders_def split: sum.splits)
qed

text \<open>
  The gate of line 73. For every pair the pass considers (the bid copy \<open>bid\<close> and
  \<open>ask = asks[i]\<close>), the step prints a fill exactly when at least one leg is a market
  order (\<open>OrderType\<close> 1) and the tradeable volume \<open>min (Size bid) (Size ask)\<close> is
  positive; the fill is at the ask level's price, for that volume. A pair without a
  market leg is passed over, whatever the kinds of its legs (\<open>no_market_no_trade\<close> is
  the consequence for a whole pass).
\<close>

lemma market_leg_gate:
  assumes "index (asksBuf st) (asksLen st) i = Inr ask"
  shows "printedBy (pairStep bidPrice askPrice i bid j st)
       = printed st
         @ (if (OrderType bid = 1 \<or> OrderType ask = 1) \<and> 0 < min (Size bid) (Size ask)
            then [Fill askPrice (min (Size bid) (Size ask)) (Id' bid) (Id' ask)] else [])"
  using assms by (rule pairStep_printed)

text \<open>
  C5 fails on the code at the orders of test 3 of \<open>TestOrderBook\<close> (cmd/main.go,
  "Matching Fill-or-Kill (FOK) orders with equal sizes"): a Fill-or-Kill buy and a
  Fill-or-Kill sell of size 10 at 100.00, two compatible resting kinds that cross. The
  pass executes no trade: it prints "No matches found this iteration" and leaves both
  orders resting, because neither leg is a market order.
\<close>

theorem matching_FOK_orders_do_not_trade:
  "run (sort_key Timestamp)
     [Submit 1 (mkOrder ''buy'' ''fok'' 100 10), Submit 2 (mkOrder ''sell'' ''fok'' 100 10)]
     NewOrderBook
   = Inr \<lparr>Bids = [(100, [stamped 0 1 (mkOrder ''buy'' ''fok'' 100 10)])],
          Asks = [(100, [stamped 1 2 (mkOrder ''sell'' ''fok'' 100 10)])],
          nextOrderID = 2, stopChan = Open\<rparr>
  \<and> MatchOrders [(100, [100])]
       \<lparr>Bids = [(100, [stamped 0 1 (mkOrder ''buy'' ''fok'' 100 10)])],
        Asks = [(100, [stamped 1 2 (mkOrder ''sell'' ''fok'' 100 10)])],
        nextOrderID = 2, stopChan = Open\<rparr>
   = Inr (\<lparr>Bids = [(100, [stamped 0 1 (mkOrder ''buy'' ''fok'' 100 10)])],
           Asks = [(100, [stamped 1 2 (mkOrder ''sell'' ''fok'' 100 10)])],
           nextOrderID = 2, stopChan = Open\<rparr>,
          [NoMatches])"
  by (simp add: evaluate)

text \<open>
  The same gate passes over two crossing GTC orders of positive size: the pass prints
  "No matches found this iteration" and leaves both resting.
\<close>

lemma crossing_GTC_orders_do_not_trade:
  "run (sort_key Timestamp)
     [Submit 1 (mkOrder ''buy'' ''gtc'' 100 5), Submit 2 (mkOrder ''sell'' ''gtc'' 100 5)]
     NewOrderBook
   = Inr \<lparr>Bids = [(100, [stamped 0 1 (mkOrder ''buy'' ''gtc'' 100 5)])],
          Asks = [(100, [stamped 1 2 (mkOrder ''sell'' ''gtc'' 100 5)])],
          nextOrderID = 2, stopChan = Open\<rparr>
  \<and> MatchOrders [(100, [100])]
       \<lparr>Bids = [(100, [stamped 0 1 (mkOrder ''buy'' ''gtc'' 100 5)])],
        Asks = [(100, [stamped 1 2 (mkOrder ''sell'' ''gtc'' 100 5)])],
        nextOrderID = 2, stopChan = Open\<rparr>
   = Inr (\<lparr>Bids = [(100, [stamped 0 1 (mkOrder ''buy'' ''gtc'' 100 5)])],
           Asks = [(100, [stamped 1 2 (mkOrder ''sell'' ''gtc'' 100 5)])],
           nextOrderID = 2, stopChan = Open\<rparr>,
          [NoMatches])"
  by (simp add: evaluate)

section \<open>Which levels a pass pairs\<close>

text \<open>
  The loops visit the pairs of a bid level and an ask level in the order in which the
  two maps are iterated, and trade under the guard \<open>bidPrice >= askPrice\<close>. So every
  fill is between levels that cross, whatever the order.
\<close>

lemma levelsAll_update:
  "list_all (P p) xs \<Longrightarrow> levelsAll P m \<Longrightarrow> levelsAll P (AList.update p xs m)"
  unfolding levelsAll_def
proof
  fix q assume "list_all (P p) xs" and "\<forall>p. list_all (P p) (level m p)"
  then show "list_all (P q) (level (AList.update p xs m) q)"
    by (cases "q = p") simp_all
qed

lemma levelsAll_delete: "levelsAll P m \<Longrightarrow> levelsAll P (AList.delete p m)"
  unfolding levelsAll_def
proof
  fix q assume "\<forall>p. list_all (P p) (level m p)"
  then show "list_all (P q) (level (AList.delete p m) q)"
    by (cases "q = p") simp_all
qed

lemma levelsAll_aliased:
  "list_all (P p) buf \<Longrightarrow> levelsAll P m \<Longrightarrow> levelsAll P (aliased p buf m)"
  by (auto simp: aliased_def levelsAll_update take_all split: option.splits)

lemma levelsAll_map_of: "map_of m p = Some xs \<Longrightarrow> levelsAll P m \<Longrightarrow> list_all (P p) xs"
  by (auto simp: levelsAll_def dest: level_Some)

lemma stateInv_printed [simp]:
  "stateInv Pb Pa bp ap (st\<lparr>matches := b\<rparr>) = stateInv Pb Pa bp ap st"
  "stateInv Pb Pa bp ap (st\<lparr>printed := out\<rparr>) = stateInv Pb Pa bp ap st"
  by (simp_all add: stateInv_def)

lemma killFOK_stateInv:
  assumes "killFOK bp ap i bid ask j st = Inr (f, i', bid', j', st')"
    and "stateInv Pb Pa bp ap st"
  shows "stateInv Pb Pa bp ap st' \<and> bid' = bid"
proof (cases "FOK bid")
  case True
  with assms(1) obtain buf n where r: "removeAt (bidsBuf st) (bidsLen st) i = Inr (buf, n)"
    and st': "st' = st\<lparr>bidsBuf := buf, bidsLen := n, obBids := aliased bp buf (obBids st)\<rparr>"
    and b: "bid' = bid"
    by (auto simp: killFOK_def split: sum.splits)
  from r assms(2) have "list_all (Pb bp) buf"
    by (auto simp: stateInv_def dest: removeAt_all)
  with assms(2) st' b show ?thesis
    by (simp add: stateInv_def levelsAll_aliased)
next
  case False
  with assms(1) obtain buf n where r: "removeAt (asksBuf st) (asksLen st) j = Inr (buf, n)"
    and st': "st' = st\<lparr>asksBuf := buf, asksLen := n, obAsks := aliased ap buf (obAsks st)\<rparr>"
    and b: "bid' = bid"
    by (auto simp: killFOK_def split: sum.splits)
  from r assms(2) have "list_all (Pa ap) buf"
    by (auto simp: stateInv_def dest: removeAt_all)
  with assms(2) st' b show ?thesis
    by (simp add: stateInv_def levelsAll_aliased)
qed

lemma cleanAsk_stateInv:
  assumes "cleanAsk ap j st = Inr (j', st')" and "stateInv Pb Pa bp ap st"
  shows "stateInv Pb Pa bp ap st'"
proof -
  from assms(1) obtain buf n m
    where r: "removeAt (asksBuf st) (length (level (obAsks st) ap)) j = Inr (buf, n)"
    and st': "st' = st\<lparr>asksBuf := buf, obAsks := m\<rparr>"
    and m: "m = AList.delete ap (AList.update ap (take n buf) (obAsks st))
          \<or> m = AList.update ap (take n buf) (obAsks st)"
    by (auto simp: cleanAsk_def Let_def split: sum.splits if_splits)
  from r assms(2) have b: "list_all (Pa ap) buf"
    by (auto simp: stateInv_def dest: removeAt_all)
  with assms(2) have "levelsAll Pa (AList.update ap (take n buf) (obAsks st))"
    by (simp add: stateInv_def levelsAll_update take_all)
  with m have "levelsAll Pa m"
    by (auto simp: levelsAll_delete)
  with b assms(2) st' show ?thesis
    by (simp add: stateInv_def)
qed

lemma cleanBid_stateInv:
  assumes "cleanBid bp i st = Inr (i', st')" and "stateInv Pb Pa bp ap st"
  shows "stateInv Pb Pa bp ap st'"
proof -
  from assms(1) obtain buf n m
    where r: "removeAt (bidsBuf st) (bidsLen st) i = Inr (buf, n)"
    and st': "st' = st\<lparr>bidsBuf := buf, bidsLen := n, obBids := m\<rparr>"
    and m: "m = AList.delete bp (AList.update bp (take n buf) (obBids st))
          \<or> m = AList.update bp (take n buf) (obBids st)"
    by (auto simp: cleanBid_def Let_def split: sum.splits if_splits)
  from r assms(2) have b: "list_all (Pb bp) buf"
    by (auto simp: stateInv_def dest: removeAt_all)
  with assms(2) have "levelsAll Pb (AList.update bp (take n buf) (obBids st))"
    by (simp add: stateInv_def levelsAll_update take_all)
  with m have "levelsAll Pb m"
    by (auto simp: levelsAll_delete)
  with b assms(2) st' show ?thesis
    by (simp add: stateInv_def)
qed

lemma fillPair_stateInv:
  assumes "fillPair bp ap i bid ask j vol st = Inr (f, i', bid', j', st')"
    and "stateInv Pb Pa bp ap st"
  shows "stateInv Pb Pa bp ap st' \<and> Id' bid' = Id' bid"
proof (cases "vol > 0")
  case False
  with assms show ?thesis by (simp add: fillPair_def)
next
  case True
  let ?st1 = "st\<lparr>matches := True,
                   printed := printed st @ [Fill ap vol (Id' bid) (Id' ask)]\<rparr>"
  let ?a = "if Size ask - vol = 0 then cleanAsk ap j ?st1 else Inr (j, ?st1)"
  from assms(2) have s1: "stateInv Pb Pa bp ap ?st1" by simp
  from True assms(1) obtain j1 st2 where a: "?a = Inr (j1, st2)"
    by (cases ?a) (auto simp: fillPair_def Let_def)
  with s1 have s2: "stateInv Pb Pa bp ap st2"
    by (auto split: if_splits dest: cleanAsk_stateInv)
  show ?thesis
  proof (cases "Size bid - vol = 0")
    case False
    with True a assms(1) have "st' = st2" "bid' = bid\<lparr>Size := Size bid - vol\<rparr>"
      by (simp_all add: fillPair_def Let_def)
    with s2 show ?thesis by simp
  next
    case z: True
    with True a assms(1) obtain i1 where "cleanBid bp i st2 = Inr (i1, st')"
      and "bid' = bid\<lparr>Size := Size bid - vol\<rparr>"
      by (cases "cleanBid bp i st2") (auto simp: fillPair_def Let_def)
    with s2 show ?thesis by (auto dest: cleanBid_stateInv)
  qed
qed

lemma pairStep_stateInv:
  assumes "pairStep bp ap i bid j st = Inr (f, i', bid', j', st')"
    and "stateInv Pb Pa bp ap st"
  shows "stateInv Pb Pa bp ap st' \<and> Id' bid' = Id' bid"
  using assms
  by (auto simp: pairStep_def Let_def split: if_splits sum.splits
      dest: killFOK_stateInv fillPair_stateInv)


lemma key_of_level: "x \<in> set (level m p) \<Longrightarrow> p \<in> set (map fst m)"
proof -
  assume "x \<in> set (level m p)"
  then have "map_of m p \<noteq> None" by (cases "map_of m p") (auto simp: level_def)
  then show ?thesis by (simp add: map_of_eq_None_iff)
qed

lemma crossingFill_intro:
  assumes "bid0 \<in> set (level (Bids ob) bp)" and "ask \<in> set (level (Asks ob) ap)"
    and "ap \<le> bp" and "0 < v"
  shows "crossingFill ob (Fill ap v (Id' bid0) (Id' ask))"
proof -
  from assms(1) have "bp \<in> set (map fst (Bids ob))" by (rule key_of_level)
  with assms show ?thesis
    unfolding crossingFill_def by (auto simp: list_ex_iff)
qed

lemma pairStep_log:
  assumes inv: "stateInv (\<lambda>p x. x \<in> set (level (Bids ob) p)) (\<lambda>p x. x \<in> set (level (Asks ob) p))
      bp ap st"
    and log: "list_all (crossingFill ob) (printed st)"
    and bid: "bid0 \<in> set (level (Bids ob) bp)" "Id' bid = Id' bid0"
    and le: "ap \<le> bp"
  shows "list_all (crossingFill ob) (printedBy (pairStep bp ap i bid j st))"
proof (cases "index (asksBuf st) (asksLen st) i")
  case (Inl e)
  with log show ?thesis by (simp add: pairStep_printed_panic)
next
  case (Inr ask)
  then have "ask \<in> set (asksBuf st)" by (rule index_mem)
  with inv have "ask \<in> set (level (Asks ob) ap)"
    by (simp add: stateInv_def list_all_iff)
  with bid(1) have "0 < v \<Longrightarrow> crossingFill ob (Fill ap v (Id' bid0) (Id' ask))" for v
    using le by (rule crossingFill_intro)
  with log bid(2) show ?thesis
    by (simp add: pairStep_printed [OF Inr])
qed

lemma pairStep_printed_Inr:
  "pairStep bp ap i bid j st = Inr (f, i', bid', j', st') \<Longrightarrow>
     printed st' = printedBy (pairStep bp ap i bid j st)"
  by (simp add: printedBy_def)

lemma pairStep_printed_Inl:
  "pairStep bp ap i bid j st = Inl (e, out) \<Longrightarrow> out = printedBy (pairStep bp ap i bid j st)"
  by (simp add: printedBy_def)

lemma jloop_log:
  assumes "stateInv (\<lambda>p x. x \<in> set (level (Bids ob) p)) (\<lambda>p x. x \<in> set (level (Asks ob) p))
      bp ap st"
    and "list_all (crossingFill ob) (printed st)"
    and "bid0 \<in> set (level (Bids ob) bp)" and "Id' bid = Id' bid0"
    and "ap \<le> bp"
  shows "case jloop bp ap i bid j st of
           Inl (e, out) \<Rightarrow> list_all (crossingFill ob) out
         | Inr (i', st') \<Rightarrow>
             stateInv (\<lambda>p x. x \<in> set (level (Bids ob) p)) (\<lambda>p x. x \<in> set (level (Asks ob) p))
               bp ap st'
             \<and> list_all (crossingFill ob) (printed st')"
  using assms
proof (induction bp ap i bid j st rule: jloop.induct)
  case (1 bp ap i bid j st)
  show ?case
  proof (cases "j < int (asksLen st)")
    case False
    with "1.prems" show ?thesis by (simp add: jloop.simps)
  next
    case True
    from "1.prems" have lg: "list_all (crossingFill ob) (printedBy (pairStep bp ap i bid j st))"
      by (intro pairStep_log)
    show ?thesis
    proof (cases "pairStep bp ap i bid j st")
      case (Inl r)
      obtain e out where r: "r = (e, out)" by (cases r) auto
      with Inl lg have "list_all (crossingFill ob) out"
        by (simp add: printedBy_def)
      with True Inl r show ?thesis by (subst jloop.simps) simp
    next
      case (Inr r)
      obtain f i1 bid1 j1 st1 where r: "r = (f, i1, bid1, j1, st1)"
        by (cases r) auto
      from Inr r "1.prems"(1) have inv1:
        "stateInv (\<lambda>p x. x \<in> set (level (Bids ob) p)) (\<lambda>p x. x \<in> set (level (Asks ob) p))
          bp ap st1" and id1: "Id' bid1 = Id' bid"
        by (auto dest: pairStep_stateInv)
      from Inr r lg have lg1: "list_all (crossingFill ob) (printed st1)"
        by (simp add: printedBy_def)
      show ?thesis
      proof (cases f)
        case Break
        with True Inr r inv1 lg1 show ?thesis by (subst jloop.simps) simp
      next
        case Continue
        from id1 "1.prems"(4) have "Id' bid1 = Id' bid0" by simp
        with "1.IH" [OF True Inr _ _ _ _ _ inv1 lg1 "1.prems"(3) _ "1.prems"(5)] r Continue
        have "case jloop bp ap i1 bid1 (j1 + 1) st1 of
           Inl (e, out) \<Rightarrow> list_all (crossingFill ob) out
         | Inr (i', st') \<Rightarrow>
             stateInv (\<lambda>p x. x \<in> set (level (Bids ob) p)) (\<lambda>p x. x \<in> set (level (Asks ob) p))
               bp ap st'
             \<and> list_all (crossingFill ob) (printed st')"
          by simp
        with True Inr r Continue show ?thesis by (subst jloop.simps) simp
      qed
    qed
  qed
qed


lemma iloop_log:
  assumes "stateInv (\<lambda>p x. x \<in> set (level (Bids ob) p)) (\<lambda>p x. x \<in> set (level (Asks ob) p))
      bp ap st"
    and "list_all (crossingFill ob) (printed st)"
    and "ap \<le> bp"
  shows "case iloop bp ap i st of
           Inl (e, out) \<Rightarrow> list_all (crossingFill ob) out
         | Inr st' \<Rightarrow>
             stateInv (\<lambda>p x. x \<in> set (level (Bids ob) p)) (\<lambda>p x. x \<in> set (level (Asks ob) p))
               bp ap st'
             \<and> list_all (crossingFill ob) (printed st')"
  using assms
proof (induction bp ap i st rule: iloop.induct)
  case (1 bp ap i st)
  show ?case
  proof (cases "i < int (bidsLen st)")
    case False
    with "1.prems" show ?thesis by (simp add: iloop.simps)
  next
    case True
    show ?thesis
    proof (cases "index (bidsBuf st) (bidsLen st) i")
      case (Inl e)
      with True "1.prems"(2) show ?thesis by (subst iloop.simps) simp
    next
      case (Inr bid)
      then have "bid \<in> set (bidsBuf st)" by (rule index_mem)
      with "1.prems"(1) have b: "bid \<in> set (level (Bids ob) bp)"
        by (simp add: stateInv_def list_all_iff)
      have jl: "case jloop bp ap i bid 0 st of
           Inl (e, out) \<Rightarrow> list_all (crossingFill ob) out
         | Inr (i', st') \<Rightarrow>
             stateInv (\<lambda>p x. x \<in> set (level (Bids ob) p)) (\<lambda>p x. x \<in> set (level (Asks ob) p))
               bp ap st'
             \<and> list_all (crossingFill ob) (printed st')"
        using "1.prems"(1,2) b _ "1.prems"(3) by (rule jloop_log) simp
      show ?thesis
      proof (cases "jloop bp ap i bid 0 st")
        case l: (Inl r)
        obtain e out where r: "r = (e, out)" by (cases r) auto
        with l jl have "list_all (crossingFill ob) out" by simp
        with True Inr l r show ?thesis by (subst iloop.simps) simp
      next
        case rr: (Inr r)
        obtain i1 st1 where r: "r = (i1, st1)" by (cases r) auto
        with rr jl have inv1:
          "stateInv (\<lambda>p x. x \<in> set (level (Bids ob) p)) (\<lambda>p x. x \<in> set (level (Asks ob) p))
            bp ap st1" and lg1: "list_all (crossingFill ob) (printed st1)"
          by simp_all
        from "1.IH" [OF True Inr rr _ inv1 lg1 "1.prems"(3)] r
        have "case iloop bp ap (i1 + 1) st1 of
           Inl (e, out) \<Rightarrow> list_all (crossingFill ob) out
         | Inr st' \<Rightarrow>
             stateInv (\<lambda>p x. x \<in> set (level (Bids ob) p)) (\<lambda>p x. x \<in> set (level (Asks ob) p))
               bp ap st'
             \<and> list_all (crossingFill ob) (printed st')"
          by simp
        with True Inr rr r show ?thesis by (subst iloop.simps) simp
      qed
    qed
  qed
qed

lemma askLoop_log:
  assumes "loopInv ob st" and "list_all (\<lambda>x. x \<in> set (level (Bids ob) bp)) (bidsBuf st)"
  shows "case askLoop bp aks st of
           Inl (e, out) \<Rightarrow> list_all (crossingFill ob) out
         | Inr st' \<Rightarrow> loopInv ob st'"
  using assms
proof (induction aks arbitrary: st)
  case Nil
  then show ?case by simp
next
  case (Cons ap aks)
  show ?case
  proof (cases "map_of (obAsks st) ap")
    case None
    with Cons.IH [OF Cons.prems] show ?thesis by simp
  next
    case (Some asks)
    let ?st1 = "st\<lparr>asksBuf := asks, asksLen := length asks\<rparr>"
    from Some Cons.prems(1) have "list_all (\<lambda>x. x \<in> set (level (Asks ob) ap)) asks"
      by (auto simp: loopInv_def dest: levelsAll_map_of)
    with Cons.prems have inv1:
      "stateInv (\<lambda>p x. x \<in> set (level (Bids ob) p)) (\<lambda>p x. x \<in> set (level (Asks ob) p))
        bp ap ?st1" and lg1: "list_all (crossingFill ob) (printed ?st1)"
      by (simp_all add: stateInv_def loopInv_def)
    show ?thesis
    proof (cases "bp \<ge> ap")
      case False
      from Cons.prems have "loopInv ob ?st1"
        "list_all (\<lambda>x. x \<in> set (level (Bids ob) bp)) (bidsBuf ?st1)"
        by (simp_all add: loopInv_def)
      from Cons.IH [OF this] False Some show ?thesis by simp
    next
      case True
      from iloop_log [OF inv1 lg1 True, of 0]
      have il: "case iloop bp ap 0 ?st1 of
           Inl (e, out) \<Rightarrow> list_all (crossingFill ob) out
         | Inr st' \<Rightarrow>
             stateInv (\<lambda>p x. x \<in> set (level (Bids ob) p)) (\<lambda>p x. x \<in> set (level (Asks ob) p))
               bp ap st'
             \<and> list_all (crossingFill ob) (printed st')" .
      show ?thesis
      proof (cases "iloop bp ap 0 ?st1")
        case (Inl r)
        with il True Some show ?thesis by (cases r) simp
      next
        case (Inr st2)
        with il have "loopInv ob st2"
          "list_all (\<lambda>x. x \<in> set (level (Bids ob) bp)) (bidsBuf st2)"
          by (simp_all add: stateInv_def loopInv_def)
        from Cons.IH [OF this] Inr True Some show ?thesis by simp
      qed
    qed
  qed
qed

lemma bidLoop_log:
  assumes "loopInv ob st"
  shows "case bidLoop keys st of
           Inl (e, out) \<Rightarrow> list_all (crossingFill ob) out
         | Inr st' \<Rightarrow> loopInv ob st'"
  using assms
proof (induction keys arbitrary: st)
  case Nil
  then show ?case by simp
next
  case (Cons k keys)
  obtain bp aks where k: "k = (bp, aks)" by (cases k) auto
  show ?case
  proof (cases "map_of (obBids st) bp")
    case None
    with Cons.IH [OF Cons.prems] k show ?thesis by simp
  next
    case (Some bids)
    let ?st0 = "st\<lparr>bidsBuf := bids, bidsLen := length bids\<rparr>"
    from Some Cons.prems have "list_all (\<lambda>x. x \<in> set (level (Bids ob) bp)) (bidsBuf ?st0)"
      by (auto simp: loopInv_def dest: levelsAll_map_of)
    moreover from Cons.prems have "loopInv ob ?st0" by (simp add: loopInv_def)
    ultimately have al: "case askLoop bp aks ?st0 of
           Inl (e, out) \<Rightarrow> list_all (crossingFill ob) out
         | Inr st' \<Rightarrow> loopInv ob st'"
      by (intro askLoop_log)
    show ?thesis
    proof (cases "askLoop bp aks ?st0")
      case (Inl r)
      with al Some k show ?thesis by (cases r) simp
    next
      case (Inr st1)
      let ?st2 = "if \<not> matches st1 then st1\<lparr>printed := printed st1 @ [NoMatches]\<rparr> else st1"
      from Inr al have "loopInv ob ?st2"
        by (simp add: loopInv_def crossingFill_def)
      from Cons.IH [OF this] Inr Some k show ?thesis by simp
    qed
  qed
qed

lemma levelsAll_self: "levelsAll (\<lambda>p x. x \<in> set (level m p)) m"
  by (simp add: levelsAll_def list_all_iff)

lemma MatchOrders_log:
  "case MatchOrders keys ob of
     Inl (e, out) \<Rightarrow> list_all (crossingFill ob) out
   | Inr (ob1, out) \<Rightarrow> list_all (crossingFill ob) out"
proof (cases "length (Bids ob) = 0 \<or> length (Asks ob) = 0")
  case True
  then show ?thesis by (simp add: MatchOrders_def)
next
  case False
  let ?st = "\<lparr>obBids = Bids ob, obAsks = Asks ob, bidsBuf = [], bidsLen = 0,
                 asksBuf = [], asksLen = 0, matches = False, printed = []\<rparr>"
  have "loopInv ob ?st" by (simp add: loopInv_def levelsAll_self)
  from bidLoop_log [OF this, of keys] False show ?thesis
    by (auto simp: MatchOrders_def loopInv_def split: sum.splits)
qed

lemma uncrossed_fill:
  assumes "list_all (\<lambda>bp. list_all (\<lambda>ap. bp < ap) (map fst (Asks ob))) (map fst (Bids ob))"
    and "crossingFill ob e"
  shows "e = NoMatches"
proof (cases e)
  case NoMatches
  then show ?thesis .
next
  case (Fill p v b a)
  with assms(2) obtain bp x where bp: "bp \<in> set (map fst (Bids ob))" "p \<le> bp"
    and x: "x \<in> set (level (Asks ob) p)"
    by (auto simp: crossingFill_def list_ex_iff)
  from x have "p \<in> set (map fst (Asks ob))" by (rule key_of_level)
  with assms(1) bp(1) have "bp < p"
    unfolding list_all_iff by blast
  with bp(2) show ?thesis by simp
qed

text \<open>
  C3, as the code has it. Every fill that a pass prints, whether the pass returns or
  panics, is at the price of an ask level of the book, between an order of that level and
  a bid of a level whose price is at least that price; on a book where every bid price is
  below every ask price the pass prints no fill. Nothing orders the levels by price.
\<close>

theorem fills_pair_crossing_levels:
  assumes "MatchOrders keys ob = Inr (ob1, out) \<or> MatchOrders keys ob = Inl (e, out)"
  shows "list_all (crossingFill ob) out
       \<and> (list_all (\<lambda>bp. list_all (\<lambda>ap. bp < ap) (map fst (Asks ob))) (map fst (Bids ob))
            \<longrightarrow> list_all (\<lambda>e. e = NoMatches) out)"
proof -
  from assms MatchOrders_log [where keys = keys and ob = ob]
  have c: "list_all (crossingFill ob) out"
    by auto
  have "list_all (\<lambda>e. e = NoMatches) out"
    if u: "list_all (\<lambda>bp. list_all (\<lambda>ap. bp < ap) (map fst (Asks ob))) (map fst (Bids ob))"
    unfolding list_all_iff
  proof
    fix x assume "x \<in> set out"
    with c have "crossingFill ob x" by (simp add: list_all_iff)
    with u show "x = NoMatches" by (rule uncrossed_fill)
  qed
  with c show ?thesis by simp
qed

theorem fills_pair_crossing_levels_witness:
  "MatchOrders [(100, [99]), (101, [])]
       \<lparr>Bids = [(100, [stamped 0 1 (mkOrder ''buy'' ''market'' 100 5)]),
                (101, [stamped 1 2 (mkOrder ''buy'' ''market'' 101 5)])],
        Asks = [(99, [stamped 2 3 (mkOrder ''sell'' ''market'' 99 5)])],
        nextOrderID = 3, stopChan = Open\<rparr>
   = Inr (\<lparr>Bids = [(101, [stamped 1 2 (mkOrder ''buy'' ''market'' 101 5)])],
           Asks = [],
           nextOrderID = 3, stopChan = Open\<rparr>,
          [Fill 99 5 0 2])
   \<and> list_all (crossingFill
         \<lparr>Bids = [(100, [stamped 0 1 (mkOrder ''buy'' ''market'' 100 5)]),
                  (101, [stamped 1 2 (mkOrder ''buy'' ''market'' 101 5)])],
          Asks = [(99, [stamped 2 3 (mkOrder ''sell'' ''market'' 99 5)])],
          nextOrderID = 3, stopChan = Open\<rparr>) [Fill 99 5 0 2]"
proof -
  let ?ob = "\<lparr>Bids = [(100, [stamped 0 1 (mkOrder ''buy'' ''market'' 100 5)]),
                (101, [stamped 1 2 (mkOrder ''buy'' ''market'' 101 5)])],
        Asks = [(99, [stamped 2 3 (mkOrder ''sell'' ''market'' 99 5)])],
        nextOrderID = 3, stopChan = Open\<rparr>"
  let ?ob1 = "\<lparr>Bids = [(101, [stamped 1 2 (mkOrder ''buy'' ''market'' 101 5)])],
           Asks = [], nextOrderID = 3, stopChan = Open\<rparr>"
  have e: "MatchOrders [(100, [99]), (101, [])] ?ob = Inr (?ob1, [Fill 99 5 0 2])"
    by (simp add: evaluate)
  then have "MatchOrders [(100, [99]), (101, [])] ?ob = Inr (?ob1, [Fill 99 5 0 2])
      \<or> MatchOrders [(100, [99]), (101, [])] ?ob = Inl (IndexOutOfRange, [Fill 99 5 0 2])"
    by (rule disjI1)
  from fills_pair_crossing_levels [OF this] e show ?thesis
    by simp
qed

text \<open>
  C3, as the claim states it, fails. With bids at 100 and 101 and an ask at 99, a pass
  whose \<open>range ob.Bids\<close> produces 100 first trades the bid at 100 (order 0) with the
  ask, while the bid at the best price 101 (order 1) is left resting. When 101 comes
  first, order 1 trades: the outcome depends on the iteration order of the map.
\<close>

theorem lower_bid_level_trades_first:
  "run (sort_key Timestamp)
     [Submit 1 (mkOrder ''buy'' ''market'' 100 5), Submit 2 (mkOrder ''buy'' ''market'' 101 5),
      Submit 3 (mkOrder ''sell'' ''market'' 99 5)]
     NewOrderBook
   = Inr \<lparr>Bids = [(100, [stamped 0 1 (mkOrder ''buy'' ''market'' 100 5)]),
                  (101, [stamped 1 2 (mkOrder ''buy'' ''market'' 101 5)])],
          Asks = [(99, [stamped 2 3 (mkOrder ''sell'' ''market'' 99 5)])],
          nextOrderID = 3, stopChan = Open\<rparr>
  \<and> MatchOrders [(100, [99]), (101, [])]
       \<lparr>Bids = [(100, [stamped 0 1 (mkOrder ''buy'' ''market'' 100 5)]),
                (101, [stamped 1 2 (mkOrder ''buy'' ''market'' 101 5)])],
        Asks = [(99, [stamped 2 3 (mkOrder ''sell'' ''market'' 99 5)])],
        nextOrderID = 3, stopChan = Open\<rparr>
   = Inr (\<lparr>Bids = [(101, [stamped 1 2 (mkOrder ''buy'' ''market'' 101 5)])],
           Asks = [],
           nextOrderID = 3, stopChan = Open\<rparr>,
          [Fill 99 5 0 2])
  \<and> MatchOrders [(101, [99]), (100, [])]
       \<lparr>Bids = [(100, [stamped 0 1 (mkOrder ''buy'' ''market'' 100 5)]),
                (101, [stamped 1 2 (mkOrder ''buy'' ''market'' 101 5)])],
        Asks = [(99, [stamped 2 3 (mkOrder ''sell'' ''market'' 99 5)])],
        nextOrderID = 3, stopChan = Open\<rparr>
   = Inr (\<lparr>Bids = [(100, [stamped 0 1 (mkOrder ''buy'' ''market'' 100 5)])],
           Asks = [],
           nextOrderID = 3, stopChan = Open\<rparr>,
          [Fill 99 5 1 2])"
  by (simp add: evaluate)

section \<open>Where the pass departs from its comments\<close>

text \<open>
  C1. The source means to cancel a Fill-or-Kill order that cannot be filled in full
  (lines 76-89), but its test \<open>vol != bid.Size && vol != ask.Size\<close> is never true,
  \<open>vol\<close> being one of the two sizes (\<open>min_is_a_size\<close>). A market buy of 5 against a
  Fill-or-Kill sell of 10: the pass prints a fill of 5 for the Fill-or-Kill order and
  leaves it resting, with size 10.
\<close>

theorem FOK_order_partially_filled_and_resting:
  "run (sort_key Timestamp)
     [Submit 1 (mkOrder ''buy'' ''market'' 100 5), Submit 2 (mkOrder ''sell'' ''fok'' 100 10)]
     NewOrderBook
   = Inr \<lparr>Bids = [(100, [stamped 0 1 (mkOrder ''buy'' ''market'' 100 5)])],
          Asks = [(100, [stamped 1 2 (mkOrder ''sell'' ''fok'' 100 10)])],
          nextOrderID = 2, stopChan = Open\<rparr>
  \<and> MatchOrders [(100, [100])]
       \<lparr>Bids = [(100, [stamped 0 1 (mkOrder ''buy'' ''market'' 100 5)])],
        Asks = [(100, [stamped 1 2 (mkOrder ''sell'' ''fok'' 100 10)])],
        nextOrderID = 2, stopChan = Open\<rparr>
   = Inr (\<lparr>Bids = [],
           Asks = [(100, [stamped 1 2 (mkOrder ''sell'' ''fok'' 100 10)])],
           nextOrderID = 2, stopChan = Open\<rparr>,
          [Fill 100 5 0 1])
  \<and> FOK (stamped 1 2 (mkOrder ''sell'' ''fok'' 100 10))
  \<and> Size (stamped 1 2 (mkOrder ''sell'' ''fok'' 100 10)) = 10"
  by (simp add: evaluate)

text \<open>
  C2. The source means to reduce the sizes of both orders (lines 94-96), but \<open>bid\<close> and
  \<open>ask\<close> are copies of the slice elements and nothing writes them back. A market buy
  of 5 against a market sell of 10: the pass prints the fill of 5, removes the bid, and
  the sell order rests on with size 10, not 5.
\<close>

theorem sizes_not_written_back:
  "run (sort_key Timestamp)
     [Submit 1 (mkOrder ''buy'' ''market'' 100 5), Submit 2 (mkOrder ''sell'' ''market'' 100 10)]
     NewOrderBook
   = Inr \<lparr>Bids = [(100, [stamped 0 1 (mkOrder ''buy'' ''market'' 100 5)])],
          Asks = [(100, [stamped 1 2 (mkOrder ''sell'' ''market'' 100 10)])],
          nextOrderID = 2, stopChan = Open\<rparr>
  \<and> MatchOrders [(100, [100])]
       \<lparr>Bids = [(100, [stamped 0 1 (mkOrder ''buy'' ''market'' 100 5)])],
        Asks = [(100, [stamped 1 2 (mkOrder ''sell'' ''market'' 100 10)])],
        nextOrderID = 2, stopChan = Open\<rparr>
   = Inr (\<lparr>Bids = [],
           Asks = [(100, [stamped 1 2 (mkOrder ''sell'' ''market'' 100 10)])],
           nextOrderID = 2, stopChan = Open\<rparr>,
          [Fill 100 5 0 1])
  \<and> Size (stamped 1 2 (mkOrder ''sell'' ''market'' 100 10)) = 10"
  by (simp add: evaluate)

text \<open>
  C4. The source reads the ask at index \<open>i\<close> (line 70, with its own note that it should
  be \<open>j\<close>) and removes the ask at index \<open>j\<close> (line 104). With a GTC and a market
  order on each side at one price, the first pass trades the two market orders (ids 1
  and 3) and removes the GTC sell (id 2) instead of the market sell. The second pass, with
  no submission in between, then trades the GTC buy (id 0) against the market sell and
  removes it: it prints a fill and changes the book.
\<close>

theorem second_pass_fills_again:
  "run (sort_key Timestamp)
     [Submit 1 (mkOrder ''buy'' ''gtc'' 100 5), Submit 2 (mkOrder ''buy'' ''market'' 100 7),
      Submit 3 (mkOrder ''sell'' ''gtc'' 100 7), Submit 4 (mkOrder ''sell'' ''market'' 100 7)]
     NewOrderBook
   = Inr \<lparr>Bids = [(100, [stamped 0 1 (mkOrder ''buy'' ''gtc'' 100 5),
                         stamped 1 2 (mkOrder ''buy'' ''market'' 100 7)])],
          Asks = [(100, [stamped 2 3 (mkOrder ''sell'' ''gtc'' 100 7),
                         stamped 3 4 (mkOrder ''sell'' ''market'' 100 7)])],
          nextOrderID = 4, stopChan = Open\<rparr>
  \<and> MatchOrders [(100, [100])]
       \<lparr>Bids = [(100, [stamped 0 1 (mkOrder ''buy'' ''gtc'' 100 5),
                       stamped 1 2 (mkOrder ''buy'' ''market'' 100 7)])],
        Asks = [(100, [stamped 2 3 (mkOrder ''sell'' ''gtc'' 100 7),
                       stamped 3 4 (mkOrder ''sell'' ''market'' 100 7)])],
        nextOrderID = 4, stopChan = Open\<rparr>
   = Inr (\<lparr>Bids = [(100, [stamped 0 1 (mkOrder ''buy'' ''gtc'' 100 5)])],
           Asks = [(100, [stamped 3 4 (mkOrder ''sell'' ''market'' 100 7)])],
           nextOrderID = 4, stopChan = Open\<rparr>,
          [Fill 100 7 1 3])
  \<and> MatchOrders [(100, [100])]
       \<lparr>Bids = [(100, [stamped 0 1 (mkOrder ''buy'' ''gtc'' 100 5)])],
        Asks = [(100, [stamped 3 4 (mkOrder ''sell'' ''market'' 100 7)])],
        nextOrderID = 4, stopChan = Open\<rparr>
   = Inr (\<lparr>Bids = [],
           Asks = [(100, [stamped 3 4 (mkOrder ''sell'' ''market'' 100 7)])],
           nextOrderID = 4, stopChan = Open\<rparr>,
          [Fill 100 5 0 3])"
  by (simp add: evaluate)

end
